theory Spec2Isabelle
  imports Main "HOL-Library.AList" "HOL-Library.Sublist"
begin

section \<open>Python values that travel through the bridge\<close>

text \<open>
  The bridge (\<^verbatim>\<open>mcp_http_bridge.py\<close>) handles only values that come out of
  \<^verbatim>\<open>json.loads\<close> or go into \<^verbatim>\<open>json.dumps\<close>. They are modelled by one datatype.
  A Python \<^verbatim>\<open>dict\<close> is an association list in insertion order (its keys are distinct
  whenever it was built by the operations below); a Python \<^verbatim>\<open>str\<close> is a \<^typ>\<open>string\<close>
  whose characters stand for the code points 0..255. Numbers are Python's unbounded
  integers; floats are outside the model (see \<open>Unmodelled\<close> below).
\<close>

datatype json =
    JNull
  | JBool bool
  | JInt int
  | JString string
  | JArray "json list"
  | JObject "(string \<times> json) list"

text \<open>
  Every \<^verbatim>\<open>raise\<close> of the bridge, and every exception the Python operations it uses
  can raise on the values above, is a constructor. \<open>Unmodelled\<close> is not a Python
  exception: it marks an input on which Python continues with a value the datatype
  cannot hold (a float, a character beyond code point 255, a field name the installed
  pydantic treats specially), so nothing is claimed about such a run.
\<close>

datatype error =
    JSONDecodeError
  | RuntimeError
  | HTTPException nat string
  | AttributeError
  | KeyError
  | TypeError
  | IndexError
  | OSError
  | BrokenPipeError
  | Unmodelled

subsection \<open>Characters\<close>

definition dquote :: char where "dquote = CHR 0x22"
definition backslash :: char where "backslash = CHR 0x5C"

definition is_digit :: "char \<Rightarrow> bool" where
  "is_digit c \<longleftrightarrow> (48::nat) \<le> of_char c \<and> (of_char c :: nat) \<le> 57"

definition digit_val :: "char \<Rightarrow> nat" where
  "digit_val c = of_char c - 48"

definition digit_char :: "nat \<Rightarrow> char" where
  "digit_char n = char_of (48 + n)"

definition hex_char :: "nat \<Rightarrow> char" where
  \<comment> \<open>\<^verbatim>\<open>'{0:x}'.format(n)\<close> for one hexadecimal digit\<close>
  "hex_char n = (if n < 10 then char_of (48 + n) else char_of (87 + n))"

definition hex_val :: "char \<Rightarrow> nat option" where
  \<comment> \<open>one hexadecimal digit, upper or lower case\<close>
  "hex_val c =
     (let n = (of_char c :: nat) in
      if 48 \<le> n \<and> n \<le> 57 then Some (n - 48)
      else if 97 \<le> n \<and> n \<le> 102 then Some (n - 87)
      else if 65 \<le> n \<and> n \<le> 70 then Some (n - 55)
      else None)"

definition is_json_ws :: "char \<Rightarrow> bool" where
  \<comment> \<open>\<^verbatim>\<open>WHITESPACE = re.compile(r'[ \t\n\r]*')\<close> of \<^verbatim>\<open>json.decoder\<close>\<close>
  "is_json_ws c \<longleftrightarrow> c = CHR '' '' \<or> c = CHR 0x09 \<or> c = CHR 0x0A \<or> c = CHR 0x0D"

definition skip_ws :: "string \<Rightarrow> string" where
  "skip_ws = dropWhile is_json_ws"

definition is_py_space :: "char \<Rightarrow> bool" where
  \<comment> \<open>\<^verbatim>\<open>str.isspace\<close> on the code points 0..255\<close>
  "is_py_space c \<longleftrightarrow>
     (let n = (of_char c :: nat) in
      (9 \<le> n \<and> n \<le> 13) \<or> (28 \<le> n \<and> n \<le> 32) \<or> n = 133 \<or> n = 160)"

definition strip :: "string \<Rightarrow> string" where
  \<comment> \<open>\<^verbatim>\<open>str.strip()\<close>\<close>
  "strip s = rev (dropWhile is_py_space (rev (dropWhile is_py_space s)))"

subsection \<open>\<^verbatim>\<open>json.dumps\<close>\<close>

fun join :: "'a list \<Rightarrow> 'a list list \<Rightarrow> 'a list" where
  "join sep [] = []"
| "join sep [x] = x"
| "join sep (x # y # ys) = x @ sep @ join sep (y # ys)"

fun decimal :: "nat \<Rightarrow> string" where
  "decimal n = (if n < 10 then [digit_char n] else decimal (n div 10) @ [digit_char (n mod 10)])"

declare decimal.simps [simp del]

definition int_repr :: "int \<Rightarrow> string" where
  \<comment> \<open>\<^verbatim>\<open>int.__repr__\<close>\<close>
  "int_repr i = (if i < 0 then CHR ''-'' # decimal (nat (- i)) else decimal (nat i))"

definition escape_ascii :: "char \<Rightarrow> string" where
  \<comment> \<open>the replacement of \<^verbatim>\<open>ESCAPE_ASCII\<close> / \<^verbatim>\<open>ESCAPE_DCT\<close> in \<^verbatim>\<open>json.encoder\<close>
     (\<^verbatim>\<open>ensure_ascii=True\<close>, the default)\<close>
  "escape_ascii c =
     (let n = (of_char c :: nat) in
      if c = dquote then [backslash, dquote]
      else if c = backslash then [backslash, backslash]
      else if n = 10 then [backslash, CHR ''n'']
      else if n = 13 then [backslash, CHR ''r'']
      else if n = 9 then [backslash, CHR ''t'']
      else if n = 8 then [backslash, CHR ''b'']
      else if n = 12 then [backslash, CHR ''f'']
      else if 32 \<le> n \<and> n \<le> 126 then [c]
      else [backslash, CHR ''u'', CHR ''0'', CHR ''0'', hex_char (n div 16), hex_char (n mod 16)])"

definition encode_basestring_ascii :: "string \<Rightarrow> string" where
  "encode_basestring_ascii s = dquote # concat (map escape_ascii s) @ [dquote]"

fun json_dumps :: "json \<Rightarrow> string" where
  "json_dumps JNull = ''null''"
| "json_dumps (JBool b) = (if b then ''true'' else ''false'')"
| "json_dumps (JInt i) = int_repr i"
| "json_dumps (JString s) = encode_basestring_ascii s"
| "json_dumps (JArray vs) = ''['' @ join '', '' (map json_dumps vs) @ '']''"
| "json_dumps (JObject kvs) =
     ''{'' @ join '', '' (map (\<lambda>kv. encode_basestring_ascii (fst kv) @ '': '' @ json_dumps (snd kv)) kvs)
       @ ''}''"

subsection \<open>\<^verbatim>\<open>json.loads\<close>\<close>

text \<open>
  The decoder follows \<^verbatim>\<open>json.decoder\<close> and \<^verbatim>\<open>json.scanner\<close> of CPython (strict mode, no
  hooks). Each function takes the text from the current position on and returns the
  value with the text that remains. The interpreter's resource limits (recursion depth,
  the digit limit of integer conversion) are not modelled.
\<close>

definition backslash_table :: "char \<Rightarrow> char option" where
  \<comment> \<open>\<^verbatim>\<open>BACKSLASH\<close>\<close>
  "backslash_table e =
     (if e = dquote then Some dquote
      else if e = backslash then Some backslash
      else if e = CHR ''/'' then Some (CHR ''/'')
      else if e = CHR ''b'' then Some (CHR 0x08)
      else if e = CHR ''f'' then Some (CHR 0x0C)
      else if e = CHR ''n'' then Some (CHR 0x0A)
      else if e = CHR ''r'' then Some (CHR 0x0D)
      else if e = CHR ''t'' then Some (CHR 0x09)
      else None)"

definition decode_uXXXX :: "char \<Rightarrow> char \<Rightarrow> char \<Rightarrow> char \<Rightarrow> nat option" where
  "decode_uXXXX h1 h2 h3 h4 =
     (case (hex_val h1, hex_val h2, hex_val h3, hex_val h4) of
        (Some a, Some b, Some c, Some d) \<Rightarrow> Some (((a * 16 + b) * 16 + c) * 16 + d)
      | _ \<Rightarrow> None)"

definition cons_chunk :: "char \<Rightarrow> error + (string \<times> string) \<Rightarrow> error + (string \<times> string)" where
  "cons_chunk c r = (case r of Inl e \<Rightarrow> Inl e | Inr (s, rest) \<Rightarrow> Inr (c # s, rest))"

fun scanstring :: "string \<Rightarrow> error + (string \<times> string)" where
  \<comment> \<open>the text after the opening quote; returns the decoded string and the text after
     the closing quote\<close>
  "scanstring [] = Inl JSONDecodeError"
| "scanstring (c # cs) =
     (if c = dquote then Inr ([], cs)
      else if c = backslash then
        (case cs of
           [] \<Rightarrow> Inl JSONDecodeError
         | e # es \<Rightarrow>
             if e = CHR ''u'' then
               (case es of
                  h1 # h2 # h3 # h4 # rest \<Rightarrow>
                    (case decode_uXXXX h1 h2 h3 h4 of
                       None \<Rightarrow> Inl JSONDecodeError
                     | Some n \<Rightarrow>
                         if n < 256 then cons_chunk (char_of n) (scanstring rest)
                         else Inl Unmodelled)
                | _ \<Rightarrow> Inl JSONDecodeError)
             else
               (case backslash_table e of
                  None \<Rightarrow> Inl JSONDecodeError
                | Some ch \<Rightarrow> cons_chunk ch (scanstring es)))
      else if (of_char c :: nat) < 32 then Inl JSONDecodeError
      else cons_chunk c (scanstring cs))"

definition has_frac :: "string \<Rightarrow> bool" where
  \<comment> \<open>\<^verbatim>\<open>(\.\d+)?\<close> matches a non-empty fraction\<close>
  "has_frac r = (case r of c1 # c2 # _ \<Rightarrow> c1 = CHR ''.'' \<and> is_digit c2 | _ \<Rightarrow> False)"

definition has_exp :: "string \<Rightarrow> bool" where
  \<comment> \<open>\<^verbatim>\<open>([eE][-+]?\d+)?\<close> matches a non-empty exponent\<close>
  "has_exp r =
     (case r of
        c1 # c2 # t \<Rightarrow>
          (c1 = CHR ''e'' \<or> c1 = CHR ''E'') \<and>
          (is_digit c2 \<or>
           ((c2 = CHR ''+'' \<or> c2 = CHR ''-'') \<and> (case t of c3 # _ \<Rightarrow> is_digit c3 | [] \<Rightarrow> False)))
      | _ \<Rightarrow> False)"

definition digits_val :: "string \<Rightarrow> nat" where
  "digits_val ds = foldl (\<lambda>a c. 10 * a + digit_val c) 0 ds"

definition match_number :: "string \<Rightarrow> (error + (json \<times> string)) option" where
  \<comment> \<open>\<^verbatim>\<open>NUMBER_RE = (-?(?:0|[1-9]\d*))(\.\d+)?([eE][-+]?\d+)?\<close>; \<open>None\<close> when it does not
     match. A literal with a fraction or an exponent is a Python float.\<close>
  "match_number s =
     (let neg = (case s of c # _ \<Rightarrow> c = CHR ''-'' | [] \<Rightarrow> False);
          s1 = (if neg then tl s else s)
      in case s1 of
           [] \<Rightarrow> None
         | d # ds \<Rightarrow>
             if \<not> is_digit d then None
             else
               let ip = (if d = CHR ''0'' then [d] else d # takeWhile is_digit ds);
                   r = (if d = CHR ''0'' then ds else dropWhile is_digit ds)
               in if has_frac r \<or> has_exp r then Some (Inl Unmodelled)
                  else Some (Inr (JInt (if neg then - int (digits_val ip) else int (digits_val ip)), r)))"

definition dict :: "(string \<times> json) list \<Rightarrow> (string \<times> json) list" where
  \<comment> \<open>\<^verbatim>\<open>dict(pairs)\<close>: a repeated key keeps its first position and takes the last value\<close>
  "dict pairs = foldl (\<lambda>d kv. AList.update (fst kv) (snd kv) d) [] pairs"

function scan_once :: "string \<Rightarrow> error + (json \<times> string)"
  and array_items :: "string \<Rightarrow> error + (json list \<times> string)"
  and object_members :: "string \<Rightarrow> error + ((string \<times> json) list \<times> string)"
where
  "scan_once s =
     (case s of
        [] \<Rightarrow> Inl JSONDecodeError
      | c # cs \<Rightarrow>
          if c = dquote then
            (case scanstring cs of
               Inl e \<Rightarrow> Inl e
             | Inr (str, rest) \<Rightarrow> Inr (JString str, rest))
          else if c = CHR ''{'' then
            (case skip_ws cs of
               [] \<Rightarrow> Inl JSONDecodeError
             | d # ds \<Rightarrow>
                 if d = CHR ''}'' then Inr (JObject [], ds)
                 else if d = dquote then
                   (case object_members ds of
                      Inl e \<Rightarrow> Inl e
                    | Inr (pairs, rest) \<Rightarrow> Inr (JObject (dict pairs), rest))
                 else Inl JSONDecodeError)
          else if c = CHR ''['' then
            (case skip_ws cs of
               [] \<Rightarrow> Inl JSONDecodeError
             | d # ds \<Rightarrow>
                 if d = CHR '']'' then Inr (JArray [], ds)
                 else
                   (case array_items (d # ds) of
                      Inl e \<Rightarrow> Inl e
                    | Inr (vs, rest) \<Rightarrow> Inr (JArray vs, rest)))
          else if take 4 s = ''null'' then Inr (JNull, drop 4 s)
          else if take 4 s = ''true'' then Inr (JBool True, drop 4 s)
          else if take 5 s = ''false'' then Inr (JBool False, drop 5 s)
          else
            (case match_number s of
               Some r \<Rightarrow> r
             | None \<Rightarrow>
                 if take 3 s = ''NaN'' \<or> take 8 s = ''Infinity'' \<or> take 9 s = ''-Infinity''
                 then Inl Unmodelled
                 else Inl JSONDecodeError))"
| "array_items s =
     (case scan_once s of
        Inl e \<Rightarrow> Inl e
      | Inr (v, r) \<Rightarrow>
          (case skip_ws r of
             [] \<Rightarrow> Inl JSONDecodeError
           | d # ds \<Rightarrow>
               if d = CHR '']'' then Inr ([v], ds)
               else if d = CHR '','' then
                 (if length ds < length s then
                    (case array_items (skip_ws ds) of
                       Inl e \<Rightarrow> Inl e
                     | Inr (vs, rest) \<Rightarrow> Inr (v # vs, rest))
                  else Inl JSONDecodeError)
               else Inl JSONDecodeError))"
| "object_members s =
     (case scanstring s of
        Inl e \<Rightarrow> Inl e
      | Inr (key, r) \<Rightarrow>
          (case skip_ws r of
             [] \<Rightarrow> Inl JSONDecodeError
           | c # r1 \<Rightarrow>
               if c \<noteq> CHR '':'' then Inl JSONDecodeError
               else if \<not> length r1 < length s then Inl JSONDecodeError
               else
                 (case scan_once (skip_ws r1) of
                    Inl e \<Rightarrow> Inl e
                  | Inr (v, r2) \<Rightarrow>
                      (case skip_ws r2 of
                         [] \<Rightarrow> Inl JSONDecodeError
                       | d # r3 \<Rightarrow>
                           if d = CHR ''}'' then Inr ([(key, v)], r3)
                           else if d = CHR '','' then
                             (case skip_ws r3 of
                                [] \<Rightarrow> Inl JSONDecodeError
                              | q # r4 \<Rightarrow>
                                  if q \<noteq> dquote then Inl JSONDecodeError
                                  else if length r4 < length s then
                                    (case object_members r4 of
                                       Inl e \<Rightarrow> Inl e
                                     | Inr (kvs, rest) \<Rightarrow> Inr ((key, v) # kvs, rest))
                                  else Inl JSONDecodeError)
                           else Inl JSONDecodeError))))"
  by pat_completeness auto

termination
proof (relation "measure (\<lambda>x. case x of
         Inl s \<Rightarrow> 2 * length s
       | Inr (Inl s) \<Rightarrow> 2 * length s + 1
       | Inr (Inr s) \<Rightarrow> 2 * length s + 1)", goal_cases)
  have le: "length (skip_ws t) \<le> length t" for t
    by (simp add: skip_ws_def length_dropWhile_le)
  have lt: "length ds < length t" if "skip_ws t = d # ds" for t d ds
    using le [of t] that by simp
  {
    case 1
    show ?case by simp
  next
    case (2 s c cs d ds)
    then show ?case using lt [of cs d ds] by auto
  next
    case (3 s c cs d ds)
    then show ?case using lt [of cs d ds] by auto
  next
    case (4 s)
    show ?case by simp
  next
    case (5 s x v r d ds)
    then show ?case using le [of ds] by auto
  next
    case (6 s x key r c r1)
    then show ?case using le [of r1] by auto
  next
    case (7 s x key r c r1 y v r2 d r3 q r4)
    then show ?case by auto
  }
qed

declare scan_once.simps [simp del] array_items.simps [simp del] object_members.simps [simp del]

definition json_loads :: "string \<Rightarrow> error + json" where
  \<comment> \<open>\<^verbatim>\<open>JSONDecoder.decode\<close>: one value between optional whitespace, nothing after it\<close>
  "json_loads s =
     (case scan_once (skip_ws s) of
        Inl e \<Rightarrow> Inl e
      | Inr (v, rest) \<Rightarrow> if skip_ws rest = [] then Inr v else Inl JSONDecodeError)"

subsection \<open>Python operations on decoded values\<close>

definition py_get :: "json \<Rightarrow> string \<Rightarrow> json \<Rightarrow> error + json" where
  \<comment> \<open>\<^verbatim>\<open>d.get(key, default)\<close>: only a dict has the method\<close>
  "py_get d key dflt =
     (case d of
        JObject kvs \<Rightarrow> Inr (case map_of kvs key of None \<Rightarrow> dflt | Some v \<Rightarrow> v)
      | _ \<Rightarrow> Inl AttributeError)"

definition py_getitem :: "json \<Rightarrow> string \<Rightarrow> error + json" where
  \<comment> \<open>\<^verbatim>\<open>d[key]\<close> with a string key\<close>
  "py_getitem d key =
     (case d of
        JObject kvs \<Rightarrow> (case map_of kvs key of None \<Rightarrow> Inl KeyError | Some v \<Rightarrow> Inr v)
      | _ \<Rightarrow> Inl TypeError)"

definition py_contains :: "json \<Rightarrow> string \<Rightarrow> bool" where
  \<comment> \<open>\<^verbatim>\<open>key in d\<close> for a dict \<open>d\<close>\<close>
  "py_contains d key = (case d of JObject kvs \<Rightarrow> map_of kvs key \<noteq> None | _ \<Rightarrow> False)"

definition py_items :: "json \<Rightarrow> error + (string \<times> json) list" where
  \<comment> \<open>\<^verbatim>\<open>d.items()\<close>\<close>
  "py_items d = (case d of JObject kvs \<Rightarrow> Inr kvs | _ \<Rightarrow> Inl AttributeError)"

definition py_iter :: "json \<Rightarrow> error + json list" where
  \<comment> \<open>the values a \<^verbatim>\<open>for\<close> loop runs over: the elements of a list, the keys of a
     dict, the characters of a string\<close>
  "py_iter v =
     (case v of
        JArray xs \<Rightarrow> Inr xs
      | JObject kvs \<Rightarrow> Inr (map (\<lambda>kv. JString (fst kv)) kvs)
      | JString s \<Rightarrow> Inr (map (\<lambda>c. JString [c]) s)
      | _ \<Rightarrow> Inl TypeError)"

definition repr_char :: "char \<Rightarrow> char \<Rightarrow> string" where
  \<comment> \<open>one character of \<^verbatim>\<open>repr\<close> of a \<^verbatim>\<open>str\<close> quoted with \<open>q\<close>\<close>
  "repr_char q c =
     (let n = (of_char c :: nat) in
      if c = q \<or> c = backslash then [backslash, c]
      else if n = 9 then [backslash, CHR ''t'']
      else if n = 10 then [backslash, CHR ''n'']
      else if n = 13 then [backslash, CHR ''r'']
      else if n < 32 \<or> (127 \<le> n \<and> n \<le> 160) \<or> n = 173
        then [backslash, CHR ''x'', hex_char (n div 16), hex_char (n mod 16)]
      else [c])"

definition repr_str :: "string \<Rightarrow> string" where
  \<comment> \<open>single quotes, unless the string has a single quote and no double quote\<close>
  "repr_str s =
     (let q = (if CHR 0x27 \<in> set s \<and> dquote \<notin> set s then dquote else CHR 0x27)
      in q # concat (map (repr_char q) s) @ [q])"

fun py_repr :: "json \<Rightarrow> string" where
  \<comment> \<open>\<^verbatim>\<open>repr\<close>, which is what an f-string prints for a dict or a list\<close>
  "py_repr JNull = ''None''"
| "py_repr (JBool b) = (if b then ''True'' else ''False'')"
| "py_repr (JInt i) = int_repr i"
| "py_repr (JString s) = repr_str s"
| "py_repr (JArray vs) = ''['' @ join '', '' (map py_repr vs) @ '']''"
| "py_repr (JObject kvs) =
     ''{'' @ join '', '' (map (\<lambda>kv. repr_str (fst kv) @ '': '' @ py_repr (snd kv)) kvs) @ ''}''"

subsection \<open>Values that are Python values\<close>

text \<open>
  The keys of a Python \<^verbatim>\<open>dict\<close> are distinct. The datatype also has association lists
  with a repeated key, which stand for no Python value.
\<close>

fun wf_json :: "json \<Rightarrow> bool" where
  "wf_json (JArray vs) = list_all wf_json vs"
| "wf_json (JObject kvs) = (distinct (map fst kvs) \<and> list_all (\<lambda>kv. wf_json (snd kv)) kvs)"
| "wf_json _ = True"

section \<open>The tool subprocess\<close>

text \<open>
  A tool is a program that reads lines from its standard input and prints lines to its
  standard output. Its behaviour is a state machine that is run in quanta: in one
  quantum it takes the lines written to its input since the last one and prints some
  lines. A quantum is the unit of time of the model: what the tool and the reader
  thread do during one round of a waiting loop of the bridge. A program that has exited
  prints nothing more, and \<open>exited\<close> holds of its state.
  \<open>None\<close> for a program stands for a \<^verbatim>\<open>subprocess.Popen\<close> that raises because the
  interpreter cannot be started.
\<close>

record 's program =
  initial :: 's
  quantum :: "'s \<Rightarrow> string list \<Rightarrow> 's \<times> string list"
  exited :: "'s \<Rightarrow> bool"

text \<open>
  What the bridge holds of one subprocess: the \<^verbatim>\<open>Popen\<close> object with its pipes, and the
  list \<^verbatim>\<open>stdout_buffer\<close> that the reader thread fills. \<open>stdin_pipe\<close> holds the
  lines written and not yet read by the tool, \<open>stdin_written\<close> every line written so far.
\<close>

record 's subprocess =
  program :: "'s program"
  state :: 's
  stdin_pipe :: "string list"
  stdin_written :: "string list"
  stdout_buffer :: "string list"
  killed :: bool

definition Popen :: "'s program \<Rightarrow> 's subprocess" where
  \<comment> \<open>\<^verbatim>\<open>subprocess.Popen(["python", server_path], ...)\<close>, \<^verbatim>\<open>stdout_buffer = []\<close>, and the
     start of the reader thread\<close>
  "Popen p =
     \<lparr>program = p, state = initial p, stdin_pipe = [], stdin_written = [],
      stdout_buffer = [], killed = False\<rparr>"

definition read_lines :: "string list \<Rightarrow> string list \<Rightarrow> string list" where
  \<comment> \<open>\<^verbatim>\<open>read_lines\<close>: every line read from the pipe is appended stripped\<close>
  "read_lines lines buffer = buffer @ map strip lines"

definition run_quantum :: "'s subprocess \<Rightarrow> 's subprocess" where
  \<comment> \<open>what happens beside the bridge while it goes once round a waiting loop: the tool
     runs one quantum and the reader thread appends what it printed\<close>
  "run_quantum h =
     (if killed h then h
      else
        let (s', printed) = quantum (program h) (state h) (stdin_pipe h)
        in h\<lparr>state := s', stdin_pipe := [],
             stdout_buffer := read_lines printed (stdout_buffer h)\<rparr>)"

partial_function (option) busy_wait :: "'s subprocess \<Rightarrow> 's subprocess option" where
  \<comment> \<open>\<^verbatim>\<open>while not stdout_buffer: pass\<close>; \<open>None\<close> is a loop that never ends\<close>
  "busy_wait h = (if stdout_buffer h \<noteq> [] then Some h else busy_wait (run_quantum h))"

declare busy_wait.simps [code]

definition pop0 :: "'s subprocess \<Rightarrow> error + (string \<times> 's subprocess)" where
  \<comment> \<open>\<^verbatim>\<open>stdout_buffer.pop(0)\<close>\<close>
  "pop0 h =
     (case stdout_buffer h of
        [] \<Rightarrow> Inl IndexError
      | line # rest \<Rightarrow> Inr (line, h\<lparr>stdout_buffer := rest\<rparr>))"

definition kill :: "'s subprocess \<Rightarrow> 's subprocess" where
  \<comment> \<open>\<^verbatim>\<open>server_proc.kill()\<close>\<close>
  "kill h = h\<lparr>killed := True\<rparr>"

definition stdin_write :: "'s subprocess \<Rightarrow> string \<Rightarrow> error + 's subprocess" where
  \<comment> \<open>\<^verbatim>\<open>server_proc.stdin.write(...)\<close> and \<^verbatim>\<open>flush()\<close>: a tool that has exited has
     closed the pipe\<close>
  "stdin_write h line =
     (if exited (program h) (state h) then Inl BrokenPipeError
      else Inr (h\<lparr>stdin_pipe := stdin_pipe h @ [line],
                  stdin_written := stdin_written h @ [line]\<rparr>))"

section \<open>The bridge\<close>

text \<open>
  The two places where the bridge depends on the installed pydantic release are
  parameters: which property names \<^verbatim>\<open>create_model\<close> takes as plain fields, and what the
  validation of a \<^verbatim>\<open>str\<close> field makes of a JSON value (\<open>None\<close>: rejected).
\<close>

record pydantic =
  field_name_ok :: "string \<Rightarrow> bool"
  validate_str :: "json \<Rightarrow> string option"

text \<open>
  A registered endpoint: the path given to \<^verbatim>\<open>app.post\<close>, the fields of the request model
  (each a required \<^verbatim>\<open>str\<close>), and the default of the parameter \<^verbatim>\<open>tool\<close> of
  \<^verbatim>\<open>tool_endpoint\<close>.
\<close>

record endpoint =
  path :: string
  request_model :: "string list"
  tool_default :: string

definition string_typed :: "json \<Rightarrow> error + bool" where
  \<comment> \<open>\<^verbatim>\<open>prop_schema.get("type") == "string"\<close>\<close>
  "string_typed prop_schema =
     (case py_get prop_schema ''type'' JNull of
        Inl e \<Rightarrow> Inl e
      | Inr t \<Rightarrow> Inr (t = JString ''string''))"

fun input_properties :: "(string \<times> json) list \<Rightarrow> error + string list" where
  \<comment> \<open>the loop over \<^verbatim>\<open>input_schema.get("properties", {}).items()\<close>\<close>
  "input_properties [] = Inr []"
| "input_properties ((prop_name, prop_schema) # rest) =
     (case string_typed prop_schema of
        Inl e \<Rightarrow> Inl e
      | Inr is_string \<Rightarrow>
          (case input_properties rest of
             Inl e \<Rightarrow> Inl e
           | Inr props \<Rightarrow> Inr (if is_string then prop_name # props else props)))"

definition create_model :: "pydantic \<Rightarrow> string list \<Rightarrow> error + string list" where
  \<comment> \<open>\<^verbatim>\<open>create_model(name, **input_properties)\<close>: the model has one required string field
     per name\<close>
  "create_model lib names = (if list_all (field_name_ok lib) names then Inr names else Inl Unmodelled)"

definition declared_properties :: "json \<Rightarrow> error + (string \<times> json) list" where
  \<comment> \<open>\<^verbatim>\<open>input_schema.get("properties", {}).items()\<close>\<close>
  "declared_properties input_schema =
     (case py_get input_schema ''properties'' (JObject []) of
        Inl e \<Rightarrow> Inl e
      | Inr properties \<Rightarrow> py_items properties)"

definition register_tool :: "pydantic \<Rightarrow> json \<Rightarrow> error + endpoint" where
  \<comment> \<open>the body of \<^verbatim>\<open>for tool in tools\<close>. A name with a brace is outside the model: the
     framework reads \<^verbatim>\<open>{...}\<close> in a path as a path parameter.\<close>
  "register_tool lib tool =
     (case py_getitem tool ''name'' of
        Inl e \<Rightarrow> Inl e
      | Inr tool_name \<Rightarrow>
     (case py_getitem tool ''input_schema'' of
        Inl e \<Rightarrow> Inl e
      | Inr input_schema \<Rightarrow>
     (case py_getitem tool ''output_schema'' of
        Inl e \<Rightarrow> Inl e
      | Inr output_schema \<Rightarrow>
     (case declared_properties input_schema of
        Inl e \<Rightarrow> Inl e
      | Inr items \<Rightarrow>
     (case input_properties items of
        Inl e \<Rightarrow> Inl e
      | Inr props \<Rightarrow>
     (case tool_name of
        JString name \<Rightarrow>
          (case create_model lib props of
             Inl e \<Rightarrow> Inl e
           | Inr model \<Rightarrow>
               if CHR ''{'' \<in> set name then Inl Unmodelled
               else Inr \<lparr>path = ''/'' @ name, request_model = model, tool_default = name\<rparr>)
      | _ \<Rightarrow> Inl AttributeError))))))"

fun register_tools :: "pydantic \<Rightarrow> json list \<Rightarrow> error + endpoint list" where
  \<comment> \<open>the loop \<^verbatim>\<open>for tool in tools\<close>: the first exception ends it\<close>
  "register_tools lib [] = Inr []"
| "register_tools lib (tool # tools) =
     (case register_tool lib tool of
        Inl e \<Rightarrow> Inl e
      | Inr ep \<Rightarrow>
          (case register_tools lib tools of
             Inl e \<Rightarrow> Inl e
           | Inr eps \<Rightarrow> Inr (ep # eps)))"

definition read_description :: "string \<Rightarrow> 's subprocess \<Rightarrow> (error + json) \<times> 's subprocess" where
  \<comment> \<open>lines 89 to 96 of \<^verbatim>\<open>create_app\<close>: decode the first line and take its \<^verbatim>\<open>tools\<close>\<close>
  "read_description first_line h =
     (case json_loads first_line of
        Inl JSONDecodeError \<Rightarrow> (Inl RuntimeError, kill h)
      | Inl e \<Rightarrow> (Inl e, h)
      | Inr desc \<Rightarrow>
          (case py_get desc ''tools'' (JArray []) of
             Inl e \<Rightarrow> (Inl e, h)
           | Inr tools \<Rightarrow> (Inr tools, kill h)))"

definition create_app ::
  "pydantic \<Rightarrow> 's program option \<Rightarrow> ((error + endpoint list) \<times> 's subprocess option) option" where
  \<comment> \<open>the result is the endpoints registered on the app, or the exception that leaves
     \<^verbatim>\<open>create_app\<close>, with the subprocess as it is left behind\<close>
  "create_app lib spawn =
     (case spawn of
        None \<Rightarrow> Some (Inl OSError, None)
      | Some p \<Rightarrow>
          (case busy_wait (Popen p) of
             None \<Rightarrow> None
           | Some h \<Rightarrow>
               (case pop0 h of
                  Inl e \<Rightarrow> Some (Inl e, Some h)
                | Inr (first_line, h1) \<Rightarrow>
                    (case read_description first_line h1 of
                       (Inl e, h2) \<Rightarrow> Some (Inl e, Some h2)
                     | (Inr tools, h2) \<Rightarrow>
                         (case py_iter tools of
                            Inl e \<Rightarrow> Some (Inl e, Some h2)
                          | Inr ts \<Rightarrow> Some (register_tools lib ts, Some h2))))))"

definition tool_call :: "string \<Rightarrow> (string \<times> string) list \<Rightarrow> json" where
  "tool_call tool input_data =
     JObject [(''type'', JString ''tool-call''),
              (''tool'', JString tool),
              (''input'', JObject (map (\<lambda>kv. (fst kv, JString (snd kv))) input_data))]"

text \<open>
  The three messages a tool prints, as \<^verbatim>\<open>describe_tools\<close> and \<^verbatim>\<open>main\<close> of
  \<^verbatim>\<open>time-tool/tool.py\<close> and \<^verbatim>\<open>weather-server/server.py\<close> build them.
\<close>

definition tool_description :: "json list \<Rightarrow> json" where
  "tool_description tools =
     JObject [(''type'', JString ''tool-description''), (''tools'', JArray tools)]"

definition tool_result :: "json \<Rightarrow> json" where
  "tool_result output = JObject [(''type'', JString ''tool-result''), (''output'', output)]"

definition error_message :: "string \<Rightarrow> json" where
  "error_message e = JObject [(''type'', JString ''error''), (''error'', JString e)]"

definition read_result :: "string \<Rightarrow> 's subprocess \<Rightarrow> (error + json) \<times> 's subprocess" where
  \<comment> \<open>lines 156 to 167 of \<^verbatim>\<open>tool_endpoint\<close>\<close>
  "read_result result_line h =
     (case json_loads result_line of
        Inl JSONDecodeError \<Rightarrow> (Inl (HTTPException 500 ''Invalid response from tool''), kill h)
      | Inl e \<Rightarrow> (Inl e, h)
      | Inr result \<Rightarrow>
          (case py_get result ''type'' JNull of
             Inl e \<Rightarrow> (Inl e, h)
           | Inr t \<Rightarrow>
               if t \<noteq> JString ''tool-result'' \<or> \<not> py_contains result ''output'' then
                 (Inl (HTTPException 500 (''Unexpected response: '' @ py_repr result)), kill h)
               else
                 (case py_getitem result ''output'' of
                    Inl e \<Rightarrow> (Inl e, kill h)
                  | Inr output \<Rightarrow> (Inr output, kill h))))"

definition call_cycle ::
  "'s program option \<Rightarrow> json \<Rightarrow> ((error \<times> 's subprocess option) + (string \<times> 's subprocess)) option" where
  \<comment> \<open>lines 122 to 155 of \<^verbatim>\<open>tool_endpoint\<close>: start the tool, wait for its first line and
     discard it, write the call, wait for the next line and take it\<close>
  "call_cycle spawn message =
     (case spawn of
        None \<Rightarrow> Some (Inl (OSError, None))
      | Some p \<Rightarrow>
          (case busy_wait (Popen p) of
             None \<Rightarrow> None
           | Some h \<Rightarrow>
               (case pop0 h of
                  Inl e \<Rightarrow> Some (Inl (e, Some h))
                | Inr (description, h1) \<Rightarrow>
                    (case stdin_write h1 (json_dumps message @ [CHR 0x0A]) of
                       Inl e \<Rightarrow> Some (Inl (e, Some h1))
                     | Inr h2 \<Rightarrow>
                         (case busy_wait h2 of
                            None \<Rightarrow> None
                          | Some h3 \<Rightarrow>
                              (case pop0 h3 of
                                 Inl e \<Rightarrow> Some (Inl (e, Some h3))
                               | Inr (result_line, h4) \<Rightarrow> Some (Inr (result_line, h4))))))))"

definition tool_endpoint ::
  "'s program option \<Rightarrow> (string \<times> string) list \<Rightarrow> string
     \<Rightarrow> ((error + json) \<times> 's subprocess option) option" where
  \<comment> \<open>\<^verbatim>\<open>tool_endpoint(request_data, tool)\<close>; \<open>request_data\<close> is the validated model as
     \<^verbatim>\<open>request_data.dict()\<close> gives it. \<open>None\<close>: the call never returns.\<close>
  "tool_endpoint spawn request_data tool =
     (let input_data = request_data in
      case call_cycle spawn (tool_call tool input_data) of
        None \<Rightarrow> None
      | Some (Inl (e, h)) \<Rightarrow> Some (Inl e, h)
      | Some (Inr (result_line, h)) \<Rightarrow>
          (case read_result result_line h of (r, h') \<Rightarrow> Some (r, Some h')))"

subsection \<open>What the web framework does around \<^verbatim>\<open>tool_endpoint\<close>\<close>

text \<open>
  FastAPI finds the first route registered for the path, validates the JSON body
  against the request model, binds \<^verbatim>\<open>tool\<close> (a parameter with a default and no
  annotation, hence a query parameter) and only then calls the function. Its return
  value is sent with status 200, an \<^verbatim>\<open>HTTPException\<close> with its own status and detail,
  any other exception as a plain 500.
\<close>

datatype http_response =
    JSONResponse nat json
  | PlainTextResponse nat string
  | NoResponseModelled


definition validation_error :: http_response where
  \<comment> \<open>the answer to a \<^verbatim>\<open>RequestValidationError\<close>; the list of errors is not modelled\<close>
  "validation_error = JSONResponse 422 (JObject [(''detail'', JArray [])])"

fun validate_fields :: "pydantic \<Rightarrow> string list \<Rightarrow> (string \<times> json) list \<Rightarrow> (string \<times> string) list option" where
  "validate_fields lib [] kvs = Some []"
| "validate_fields lib (f # fs) kvs =
     (case map_of kvs f of
        None \<Rightarrow> None
      | Some v \<Rightarrow>
          (case validate_str lib v of
             None \<Rightarrow> None
           | Some s \<Rightarrow>
               (case validate_fields lib fs kvs of
                  None \<Rightarrow> None
                | Some rest \<Rightarrow> Some ((f, s) # rest))))"

definition validate_body :: "pydantic \<Rightarrow> string list \<Rightarrow> json \<Rightarrow> (string \<times> string) list option" where
  \<comment> \<open>the request model applied to the body: every field required, other keys ignored\<close>
  "validate_body lib model body =
     (case body of JObject kvs \<Rightarrow> validate_fields lib model kvs | _ \<Rightarrow> None)"

definition respond :: "error + json \<Rightarrow> http_response" where
  "respond r =
     (case r of
        Inr output \<Rightarrow> JSONResponse 200 output
      | Inl (HTTPException code detail) \<Rightarrow> JSONResponse code (JObject [(''detail'', JString detail)])
      | Inl Unmodelled \<Rightarrow> NoResponseModelled
      | Inl _ \<Rightarrow> PlainTextResponse 500 ''Internal Server Error'')"

definition post ::
  "pydantic \<Rightarrow> endpoint list \<Rightarrow> 's program option \<Rightarrow> string \<Rightarrow> string option \<Rightarrow> json
     \<Rightarrow> (http_response \<times> 's subprocess option) option" where
  \<comment> \<open>a POST request to \<open>url_path\<close> with the query parameter \<^verbatim>\<open>tool\<close> (if given) and a
     JSON body; \<open>spawn\<close> is the program a \<^verbatim>\<open>Popen\<close> during this request would start.
     The second component is the subprocess of the request, \<open>None\<close> if none was started.\<close>
  "post lib app spawn url_path tool_param body =
     (case find (\<lambda>ep. path ep = url_path) app of
        None \<Rightarrow> Some (JSONResponse 404 (JObject [(''detail'', JString ''Not Found'')]), None)
      | Some ep \<Rightarrow>
          (case validate_body lib (request_model ep) body of
             None \<Rightarrow> Some (validation_error, None)
           | Some request_data \<Rightarrow>
               (case tool_endpoint spawn request_data
                       (case tool_param of None \<Rightarrow> tool_default ep | Some t \<Rightarrow> t) of
                  None \<Rightarrow> None
                | Some (r, h) \<Rightarrow> Some (respond r, h))))"

subsection \<open>Tool entries as the protocol describes them\<close>




section \<open>Test doubles\<close>

text \<open>
  Programs and settings used to run the model on concrete inputs. \<open>scripted\<close> prints
  the lines \<open>startup\<close> in its first quantum and answers every line it reads with the
  lines \<open>reply\<close> gives; \<open>mute\<close> never prints anything.
\<close>

definition scripted :: "string list \<Rightarrow> (string \<Rightarrow> string list) \<Rightarrow> bool program" where
  "scripted startup reply =
     \<lparr>initial = False,
      quantum = (\<lambda>started lines.
                   (True, (if started then [] else startup) @ concat (map reply lines))),
      exited = (\<lambda>_. False)\<rparr>"

definition mute :: "unit program" where
  "mute = \<lparr>initial = (), quantum = (\<lambda>s lines. (s, [])), exited = (\<lambda>_. False)\<rparr>"

definition strict :: pydantic where
  \<comment> \<open>field names must not start with an underscore; a \<^verbatim>\<open>str\<close> field takes strings only\<close>
  "strict =
     \<lparr>field_name_ok = (\<lambda>n. n \<noteq> [] \<and> hd n \<noteq> CHR ''_''),
      validate_str = (\<lambda>v. case v of JString s \<Rightarrow> Some s | _ \<Rightarrow> None)\<rparr>"

definition time_description :: string where
  \<comment> \<open>the line \<^verbatim>\<open>describe_tools\<close> of \<^verbatim>\<open>time-tool/tool.py\<close> prints\<close>
  \<open>time_description =
     ''{"type": "tool-description", "tools": [{"name": "get-time", "description": "Returns the current time for any location in the world", "input_schema": {"type": "object", "properties": {"location": {"type": "string"}}, "required": ["location"]}, "output_schema": {"type": "object", "properties": {"location": {"type": "string"}, "timezone": {"type": "string"}, "time": {"type": "string"}, "date": {"type": "string"}}}}]}''\<close>


definition two_tools_description :: string where
  \<open>two_tools_description =
     ''{"type": "tool-description", "tools": [{"name": "get-forecast", "input_schema": {"properties": {"location": {"type": "string"}}}, "output_schema": {}}, {"name": "get-time", "input_schema": {"properties": {"location": {"type": "string"}}}, "output_schema": {}}]}''\<close>

definition echo :: "string \<Rightarrow> string list" where
  \<comment> \<open>answers a line with a tool-result whose output is the message read\<close>
  \<open>echo line = [''{"type": "tool-result", "output": '' @ line @ ''}'']\<close>

definition boom_line :: string where
  \<open>boom_line = ''{"type": "error", "error": "boom"}''\<close>


definition silent :: "string \<Rightarrow> string list" where
  \<comment> \<open>answers nothing\<close>
  "silent line = []"

definition booms :: "string \<Rightarrow> string list" where
  \<comment> \<open>answers every line with the error message\<close>
  "booms line = [boom_line]"


definition time_app :: "endpoint list" where
  "time_app =
     [\<lparr>path = ''/get-time'', request_model = [''location''], tool_default = ''get-time''\<rparr>]"

definition two_tool_app :: "endpoint list" where
  "two_tool_app =
     [\<lparr>path = ''/get-forecast'', request_model = [''location''], tool_default = ''get-forecast''\<rparr>,
      \<lparr>path = ''/get-time'', request_model = [''location''], tool_default = ''get-time''\<rparr>]"

definition paris :: json where
  "paris = JObject [(''location'', JString ''Paris'')]"

definition get_time_tool :: json where
  \<comment> \<open>the entry of \<open>time_description\<close> in its \<^verbatim>\<open>tools\<close>\<close>
  "get_time_tool =
     JObject
       [(''name'', JString ''get-time''),
        (''description'', JString ''Returns the current time for any location in the world''),
        (''input_schema'', JObject
          [(''type'', JString ''object''),
           (''properties'', JObject [(''location'', JObject [(''type'', JString ''string'')])]),
           (''required'', JArray [JString ''location''])]),
        (''output_schema'', JObject
          [(''type'', JString ''object''),
           (''properties'', JObject
             [(''location'', JObject [(''type'', JString ''string'')]),
              (''timezone'', JObject [(''type'', JString ''string'')]),
              (''time'', JObject [(''type'', JString ''string'')]),
              (''date'', JObject [(''type'', JString ''string'')])])])]"





definition paris_time :: json where
  \<comment> \<open>the \<^verbatim>\<open>output\<close> of \<open>time_result_line\<close>\<close>
  "paris_time =
     JObject [(''location'', JString ''Paris''), (''timezone'', JString ''Europe/Paris''),
              (''time'', JString ''12:00:00''), (''date'', JString ''2024-01-01'')]"

section \<open>Shapes of encoded text\<close>

text \<open>
  Auxiliary notions for the proofs about \<^verbatim>\<open>json.dumps\<close> and \<^verbatim>\<open>json.loads\<close>: the characters
  an encoded value begins and ends with, the text that may follow a value, and the text of
  one member of an object.
\<close>

definition starts_value :: "char \<Rightarrow> bool" where
  "starts_value c \<longleftrightarrow>
     c = CHR ''n'' \<or> c = CHR ''t'' \<or> c = CHR ''f'' \<or> c = CHR ''-'' \<or> is_digit c \<or>
     c = dquote \<or> c = CHR ''['' \<or> c = CHR ''{''"

definition closes_value :: "char \<Rightarrow> bool" where
  "closes_value c \<longleftrightarrow>
     c = CHR ''l'' \<or> c = CHR ''e'' \<or> is_digit c \<or> c = dquote \<or> c = CHR '']'' \<or> c = CHR ''}''"

definition ends_value :: "string \<Rightarrow> bool" where
  "ends_value rest \<longleftrightarrow>
     (case rest of [] \<Rightarrow> True
      | c # _ \<Rightarrow> c = CHR '','' \<or> c = CHR '']'' \<or> c = CHR ''}'' \<or> c = CHR 0x0A)"

definition decode_failure :: "error \<Rightarrow> bool" where
  \<comment> \<open>the two ways the model of \<^verbatim>\<open>json.loads\<close> gives no value\<close>
  "decode_failure e \<longleftrightarrow> e = JSONDecodeError \<or> e = Unmodelled"

definition member_text :: "string \<times> json \<Rightarrow> string" where
  "member_text kv = encode_basestring_ascii (fst kv) @ '': '' @ json_dumps (snd kv)"

section \<open>The decoder inverts the encoder\<close>

subsection \<open>Strings\<close>

lemma char_eq_code: "(of_char c :: nat) = of_char d \<Longrightarrow> c = d"
  by simp

lemma hex_val_hex_char: "k < 16 \<Longrightarrow> hex_val (hex_char k) = Some k"
  by (auto simp: hex_val_def hex_char_def Let_def)

lemma decode_u00: 
  "decode_uXXXX (CHR ''0'') (CHR ''0'') (hex_char ((of_char c :: nat) div 16)) (hex_char ((of_char c :: nat) mod 16))
    = Some (of_char c)"
proof -
  have "(of_char c :: nat) < 256" by simp
  then have "(of_char c :: nat) div 16 < 16" by arith
  then show ?thesis
    by (simp add: decode_uXXXX_def hex_val_hex_char) (simp add: hex_val_def)
qed

lemma scanstring_escape_char:
  "scanstring (escape_ascii c @ t) = cons_chunk c (scanstring t)"
proof -
  consider "c = dquote" | "c = backslash"
    | "(of_char c :: nat) = 10" | "(of_char c :: nat) = 13" | "(of_char c :: nat) = 9"
    | "(of_char c :: nat) = 8" | "(of_char c :: nat) = 12"
    | "c \<noteq> dquote" "c \<noteq> backslash" "32 \<le> (of_char c :: nat)" "(of_char c :: nat) \<le> 126"
    | "c \<noteq> dquote" "c \<noteq> backslash" "(of_char c :: nat) \<notin> {10, 13, 9, 8, 12}"
      "\<not> (32 \<le> (of_char c :: nat) \<and> (of_char c :: nat) \<le> 126)"
    by fastforce
  then show ?thesis
  proof cases
    case 1
    then show ?thesis by (simp add: escape_ascii_def backslash_table_def dquote_def backslash_def)
  next
    case 2
    then show ?thesis by (simp add: escape_ascii_def backslash_table_def dquote_def backslash_def)
  next
    case 3
    then have "c = CHR 0x0A" by (intro char_eq_code) simp
    then show ?thesis by (simp add: escape_ascii_def backslash_table_def dquote_def backslash_def)
  next
    case 4
    then have "c = CHR 0x0D" by (intro char_eq_code) simp
    then show ?thesis by (simp add: escape_ascii_def backslash_table_def dquote_def backslash_def)
  next
    case 5
    then have "c = CHR 0x09" by (intro char_eq_code) simp
    then show ?thesis by (simp add: escape_ascii_def backslash_table_def dquote_def backslash_def)
  next
    case 6
    then have "c = CHR 0x08" by (intro char_eq_code) simp
    then show ?thesis by (simp add: escape_ascii_def backslash_table_def dquote_def backslash_def)
  next
    case 7
    then have "c = CHR 0x0C" by (intro char_eq_code) simp
    then show ?thesis by (simp add: escape_ascii_def backslash_table_def dquote_def backslash_def)
  next
    case 8
    then show ?thesis by (auto simp: escape_ascii_def Let_def)
  next
    case 9
    then have "escape_ascii c = [backslash, CHR ''u'', CHR ''0'', CHR ''0'',
        hex_char ((of_char c :: nat) div 16), hex_char ((of_char c :: nat) mod 16)]"
      by (auto simp: escape_ascii_def Let_def)
    then show ?thesis
      by (simp add: decode_u00) (simp add: dquote_def backslash_def)
  qed
qed

lemma scanstring_escape:
  "scanstring (concat (map escape_ascii s) @ dquote # rest) = Inr (s, rest)"
  by (induction s) (simp_all add: scanstring_escape_char cons_chunk_def)

lemma scanstring_encode:
  "scanstring (tl (encode_basestring_ascii s) @ rest) = Inr (s, rest)"
  using scanstring_escape [of s rest] by (simp add: encode_basestring_ascii_def)

subsection \<open>Integers\<close>

lemma is_digit_digit_char: "k < 10 \<Longrightarrow> is_digit (digit_char k)"
  by (simp add: is_digit_def digit_char_def)

lemma digit_val_digit_char: "k < 10 \<Longrightarrow> digit_val (digit_char k) = k"
  by (simp add: digit_val_def digit_char_def)

lemma decimal_digits: "list_all is_digit (decimal n)"
  by (induction n rule: decimal.induct) (subst decimal.simps, simp add: is_digit_digit_char)

lemma decimal_nonempty: "decimal n \<noteq> []"
  by (subst decimal.simps) simp

lemma digits_val_snoc: "digits_val (ds @ [d]) = 10 * digits_val ds + digit_val d"
  by (simp add: digits_val_def)

lemma digits_val_decimal: "digits_val (decimal n) = n"
proof (induction n rule: decimal.induct)
  case (1 n)
  show ?case
  proof (cases "n < 10")
    case True
    then show ?thesis
      by (subst decimal.simps) (simp add: digits_val_def digit_val_digit_char)
  next
    case False
    with 1 have "digits_val (decimal (n div 10)) = n div 10" by simp
    with False show ?thesis
      by (subst decimal.simps) (simp add: digits_val_snoc digit_val_digit_char)
  qed
qed

lemma decimal_hd_zero: "hd (decimal n) = CHR ''0'' \<Longrightarrow> n = 0"
proof (induction n rule: decimal.induct)
  case (1 n)
  show ?case
  proof (cases "n < 10")
    case True
    with 1(2) have "digit_char n = CHR ''0''"
      by (subst (asm) decimal.simps) simp
    then have "digit_val (digit_char n) = digit_val (CHR ''0'')" by simp
    with True show ?thesis by (simp add: digit_val_digit_char) (simp add: digit_val_def)
  next
    case False
    with 1(2) have "hd (decimal (n div 10)) = CHR ''0''"
      by (subst (asm) decimal.simps) (simp add: decimal_nonempty)
    with 1(1) False have "n div 10 = 0" by simp
    with False show ?thesis by simp
  qed
qed

lemma decimal_zero: "decimal 0 = ''0''"
proof -
  have "char_of (48::nat) = CHR ''0''" by (intro char_eq_code) simp
  then show ?thesis by (subst decimal.simps) (simp add: digit_char_def)
qed

lemma decimal_last: "is_digit (last (decimal n))"
  by (subst decimal.simps) (simp add: is_digit_digit_char)

lemma ends_value_no_digit:
  "ends_value rest \<Longrightarrow> takeWhile is_digit rest = [] \<and> dropWhile is_digit rest = rest \<and>
     \<not> has_frac rest \<and> \<not> has_exp rest"
  by (cases rest) (auto simp: ends_value_def is_digit_def has_frac_def has_exp_def split: list.splits)

lemma match_number_decimal:
  assumes "ends_value rest"
  shows "match_number (decimal n @ rest) = Some (Inr (JInt (int n), rest))"
proof -
  obtain d ds where dec: "decimal n = d # ds"
    using decimal_nonempty [of n] by (cases "decimal n") auto
  have digs: "is_digit d" "list_all is_digit ds"
    using decimal_digits [of n] dec by simp_all
  then have notminus: "d \<noteq> CHR ''-''" by (auto simp: is_digit_def)
  have val: "digits_val (d # ds) = n" using digits_val_decimal [of n] dec by simp
  note ev = ends_value_no_digit [OF assms]
  show ?thesis
  proof (cases "d = CHR ''0''")
    case True
    then have "n = 0" using decimal_hd_zero [of n] dec by simp
    then have "ds = []" using dec decimal_zero by simp
    with True dec val ev notminus show ?thesis
      by (simp add: match_number_def is_digit_def)
  next
    case False
    have "takeWhile is_digit (ds @ rest) = ds" "dropWhile is_digit (ds @ rest) = rest"
      using digs(2) ev by (simp_all add: list_all_iff takeWhile_append2 dropWhile_append2)
    with False dec val ev notminus digs(1) show ?thesis
      by (simp add: match_number_def)
  qed
qed

lemma match_number_int_repr:
  assumes "ends_value rest"
  shows "match_number (int_repr i @ rest) = Some (Inr (JInt i, rest))"
proof (cases "i < 0")
  case False
  then show ?thesis
    using match_number_decimal [OF assms, of "nat i"] by (simp add: int_repr_def)
next
  case True
  let ?n = "nat (- i)"
  obtain d ds where dec: "decimal ?n = d # ds"
    using decimal_nonempty [of ?n] by (cases "decimal ?n") auto
  have digs: "is_digit d" "list_all is_digit ds"
    using decimal_digits [of ?n] dec by simp_all
  have val: "digits_val (d # ds) = ?n" using digits_val_decimal [of ?n] dec by simp
  note ev = ends_value_no_digit [OF assms]
  have nz: "d \<noteq> CHR ''0''"
  proof
    assume "d = CHR ''0''"
    then have "?n = 0" using decimal_hd_zero [of ?n] dec by simp
    with True show False by simp
  qed
  have "takeWhile is_digit (ds @ rest) = ds" "dropWhile is_digit (ds @ rest) = rest"
    using digs(2) ev by (simp_all add: list_all_iff takeWhile_append2 dropWhile_append2)
  with True dec val ev digs(1) nz show ?thesis
    by (simp add: match_number_def int_repr_def)
qed

lemma int_repr_hd: "\<exists>c cs. int_repr i = c # cs \<and> (c = CHR ''-'' \<or> is_digit c)"
proof -
  obtain d ds where "decimal (nat \<bar>i\<bar>) = d # ds"
    using decimal_nonempty [of "nat \<bar>i\<bar>"] by (cases "decimal (nat \<bar>i\<bar>)") auto
  moreover have "is_digit d" using decimal_digits [of "nat \<bar>i\<bar>"] calculation by simp
  moreover have "i < 0 \<Longrightarrow> nat (- i) = nat \<bar>i\<bar>" by simp
  moreover have "\<not> i < 0 \<Longrightarrow> nat i = nat \<bar>i\<bar>" by simp
  ultimately show ?thesis by (auto simp: int_repr_def)
qed

lemma int_repr_last: "is_digit (last (int_repr i))"
  by (simp add: int_repr_def decimal_last decimal_nonempty)

subsection \<open>Lists and objects\<close>

lemma json_dumps_hd: "\<exists>c cs. json_dumps j = c # cs \<and> starts_value c"
proof (cases j)
  case (JInt i)
  then show ?thesis using int_repr_hd [of i] by (auto simp: starts_value_def)
qed (auto simp: starts_value_def encode_basestring_ascii_def)

lemma json_dumps_last: "closes_value (last (json_dumps j))"
proof (cases j)
  case (JBool b)
  then show ?thesis by (cases b) (simp_all add: closes_value_def)
next
  case (JInt i)
  then show ?thesis using int_repr_last [of i] by (simp add: closes_value_def)
qed (simp_all add: closes_value_def encode_basestring_ascii_def)

lemma skip_ws_starts: "starts_value c \<Longrightarrow> skip_ws (c # cs) = c # cs"
  by (auto simp: skip_ws_def starts_value_def is_json_ws_def is_digit_def dquote_def)

lemma skip_ws_dumps: "skip_ws (json_dumps j @ rest) = json_dumps j @ rest"
  using json_dumps_hd [of j] by (auto simp: skip_ws_starts)

lemma skip_ws_space_dumps: "skip_ws (CHR '' '' # json_dumps j @ rest) = json_dumps j @ rest"
  using skip_ws_dumps [of j rest] by (simp add: skip_ws_def is_json_ws_def)

lemma join_Cons: "join sep (x # xs) = x @ (if xs = [] then [] else sep @ join sep xs)"
  by (cases xs) simp_all

lemma array_items_join:
  assumes "vs \<noteq> []"
    and "\<And>v rest. v \<in> set vs \<Longrightarrow> ends_value rest \<Longrightarrow> scan_once (json_dumps v @ rest) = Inr (v, rest)"
  shows "array_items (join '', '' (map json_dumps vs) @ CHR '']'' # rest) = Inr (vs, rest)"
  using assms
proof (induction vs rule: list_nonempty_induct)
  case (single v)
  have "scan_once (json_dumps v @ CHR '']'' # rest) = Inr (v, CHR '']'' # rest)"
    by (rule single) (simp_all add: ends_value_def)
  then show ?case
    by (subst array_items.simps) (simp add: skip_ws_def is_json_ws_def)
next
  case (cons v vs)
  let ?tail = "join '', '' (map json_dumps vs) @ CHR '']'' # rest"
  obtain w ws where vs: "vs = w # ws" using cons.hyps by (cases vs) auto
  have tail: "?tail = json_dumps w @ (if ws = [] then [] else '', '' @ join '', '' (map json_dumps ws)) @ CHR '']'' # rest"
    using vs by (cases ws) simp_all
  have whole: "join '', '' (map json_dumps (v # vs)) @ CHR '']'' # rest
      = json_dumps v @ CHR '','' # CHR '' '' # ?tail"
    using vs by simp
  have 1: "scan_once (json_dumps v @ CHR '','' # CHR '' '' # ?tail) = Inr (v, CHR '','' # CHR '' '' # ?tail)"
    by (rule cons.prems) (simp_all add: ends_value_def)
  have 2: "skip_ws (CHR '' '' # ?tail) = ?tail"
    unfolding tail by (rule skip_ws_space_dumps)
  have 3: "array_items ?tail = Inr (vs, rest)"
    by (rule cons.IH) (simp add: cons.prems)
  have 0: "skip_ws (CHR '','' # t) = CHR '','' # t" for t
    by (simp add: skip_ws_def is_json_ws_def)
  show ?case
    unfolding whole
    by (subst array_items.simps) (simp add: 0 1 2 3)
qed

lemma member_text_Cons: "member_text kv = dquote # tl (member_text kv)"
  by (simp add: member_text_def encode_basestring_ascii_def)

lemma join_members_hd:
  assumes "kvs \<noteq> []"
  shows "\<exists>t. join sep (map member_text kvs) @ rest = dquote # t"
proof -
  obtain kw kws where kvs: "kvs = kw # kws" using assms by (cases kvs) auto
  obtain m where m: "member_text kw = dquote # m"
    using member_text_Cons [of kw] by blast
  show ?thesis
    unfolding kvs list.map join_Cons m by simp
qed

lemma object_members_join:
  assumes "kvs \<noteq> []"
    and "\<And>kv rest. kv \<in> set kvs \<Longrightarrow> ends_value rest \<Longrightarrow>
           scan_once (json_dumps (snd kv) @ rest) = Inr (snd kv, rest)"
  shows "object_members (tl (join '', '' (map member_text kvs) @ CHR ''}'' # rest)) = Inr (kvs, rest)"
  using assms
proof (induction kvs rule: list_nonempty_induct)
  case (single kv)
  obtain k v where kv: "kv = (k, v)" by (cases kv)
  have whole: "tl (join '', '' (map member_text [kv]) @ CHR ''}'' # rest)
      = tl (encode_basestring_ascii k) @ CHR '':'' # CHR '' '' # json_dumps v @ CHR ''}'' # rest"
    by (simp add: kv member_text_def encode_basestring_ascii_def)
  have 1: "scanstring (tl (encode_basestring_ascii k) @ CHR '':'' # CHR '' '' # json_dumps v @ CHR ''}'' # rest)
      = Inr (k, CHR '':'' # CHR '' '' # json_dumps v @ CHR ''}'' # rest)"
    by (rule scanstring_encode)
  have 2: "skip_ws (CHR '':'' # t) = CHR '':'' # t" for t
    by (simp add: skip_ws_def is_json_ws_def)
  have 3: "scan_once (json_dumps v @ CHR ''}'' # rest) = Inr (v, CHR ''}'' # rest)"
    using single [of kv "CHR ''}'' # rest"] by (simp add: kv ends_value_def)
  have 4: "skip_ws (CHR ''}'' # t) = CHR ''}'' # t" for t
    by (simp add: skip_ws_def is_json_ws_def)
  show ?case
    unfolding whole
    by (subst object_members.simps) (simp add: 1 2 3 4 skip_ws_space_dumps kv)
next
  case (cons kv kvs)
  obtain k v where kv: "kv = (k, v)" by (cases kv)
  let ?tail = "join '', '' (map member_text kvs) @ CHR ''}'' # rest"
  obtain kw kws where kvs: "kvs = kw # kws" using cons.hyps by (cases kvs) auto
  have tail: "?tail = dquote # tl ?tail"
    using join_members_hd [OF cons.hyps, of "'', ''" "CHR ''}'' # rest"] by auto
  have whole: "tl (join '', '' (map member_text (kv # kvs)) @ CHR ''}'' # rest)
      = tl (encode_basestring_ascii k) @ CHR '':'' # CHR '' '' # json_dumps v @ CHR '','' # CHR '' '' # ?tail"
    using kvs by (simp add: kv member_text_def encode_basestring_ascii_def)
  have 1: "scanstring (tl (encode_basestring_ascii k) @ CHR '':'' # CHR '' '' # json_dumps v @ CHR '','' # CHR '' '' # ?tail)
      = Inr (k, CHR '':'' # CHR '' '' # json_dumps v @ CHR '','' # CHR '' '' # ?tail)"
    by (rule scanstring_encode)
  have 2: "skip_ws (CHR '':'' # t) = CHR '':'' # t" for t
    by (simp add: skip_ws_def is_json_ws_def)
  have 3: "scan_once (json_dumps v @ CHR '','' # CHR '' '' # ?tail) = Inr (v, CHR '','' # CHR '' '' # ?tail)"
    using cons.prems [of kv "CHR '','' # CHR '' '' # ?tail"] by (simp add: kv ends_value_def)
  have 4: "skip_ws (CHR '','' # t) = CHR '','' # t" for t
    by (simp add: skip_ws_def is_json_ws_def)
  have "skip_ws (CHR '' '' # dquote # tl ?tail) = dquote # tl ?tail"
    by (simp add: skip_ws_def is_json_ws_def dquote_def)
  then have 5: "skip_ws (CHR '' '' # ?tail) = dquote # tl ?tail"
    using tail by simp
  have 6: "object_members (tl ?tail) = Inr (kvs, rest)"
    by (rule cons.IH) (simp add: cons.prems)
  show ?case
    unfolding whole
    by (subst object_members.simps) (simp add: 1 2 3 4 5 6 skip_ws_space_dumps kv)
qed

lemma update_append_new:
  "k \<notin> fst ` set acc \<Longrightarrow> AList.update k v acc = acc @ [(k, v)]"
  by (induction acc) auto

lemma dict_foldl:
  "distinct (map fst (acc @ kvs)) \<Longrightarrow>
   foldl (\<lambda>d kv. AList.update (fst kv) (snd kv) d) acc kvs = acc @ kvs"
proof (induction kvs arbitrary: acc)
  case Nil
  then show ?case by simp
next
  case (Cons kv kvs)
  then have "fst kv \<notin> fst ` set acc" by auto
  then have "AList.update (fst kv) (snd kv) acc = acc @ [kv]"
    by (simp add: update_append_new)
  with Cons show ?case by simp
qed

lemma dict_distinct: "distinct (map fst kvs) \<Longrightarrow> dict kvs = kvs"
  using dict_foldl [of "[]" kvs] by (simp add: dict_def)

subsection \<open>Values\<close>

lemma scan_once_literal:
  "scan_once (''null'' @ rest) = Inr (JNull, rest)"
  "scan_once (''true'' @ rest) = Inr (JBool True, rest)"
  "scan_once (''false'' @ rest) = Inr (JBool False, rest)"
  by (subst scan_once.simps, simp add: dquote_def)+

lemma scan_once_int:
  assumes "ends_value rest"
  shows "scan_once (int_repr i @ rest) = Inr (JInt i, rest)"
proof -
  obtain c cs where c: "int_repr i = c # cs" "c = CHR ''-'' \<or> is_digit c"
    using int_repr_hd [of i] by blast
  have m: "match_number (c # cs @ rest) = Some (Inr (JInt i, rest))"
    using match_number_int_repr [OF assms, of i] c(1) by simp
  from c(2) have "c \<noteq> dquote" "c \<noteq> CHR ''{''" "c \<noteq> CHR ''[''" "c \<noteq> CHR ''n''" "c \<noteq> CHR ''t''" "c \<noteq> CHR ''f''"
    by (auto simp: is_digit_def dquote_def)
  then show ?thesis
    unfolding c(1)
    by (subst scan_once.simps) (simp add: m)
qed

lemma scan_once_string:
  "scan_once (encode_basestring_ascii s @ rest) = Inr (JString s, rest)"
  using scanstring_encode [of s rest]
  by (subst scan_once.simps) (simp add: encode_basestring_ascii_def)

lemma scan_once_array:
  assumes "\<And>v rest. v \<in> set vs \<Longrightarrow> ends_value rest \<Longrightarrow> scan_once (json_dumps v @ rest) = Inr (v, rest)"
  shows "scan_once (json_dumps (JArray vs) @ rest) = Inr (JArray vs, rest)"
proof (cases vs)
  case Nil
  then show ?thesis
    by (subst scan_once.simps) (simp add: dquote_def skip_ws_def is_json_ws_def)
next
  case (Cons w ws)
  let ?items = "join '', '' (map json_dumps vs) @ CHR '']'' # rest"
  obtain d ds where d: "json_dumps w = d # ds" "starts_value d"
    using json_dumps_hd [of w] by blast
  have items: "?items = d # (ds @ (if ws = [] then [] else '', '' @ join '', '' (map json_dumps ws)) @ CHR '']'' # rest)"
    unfolding Cons list.map join_Cons d(1) by simp
  then obtain t where t: "?items = d # t" by blast
  have sk: "skip_ws ?items = d # t"
    unfolding t using d(2) by (rule skip_ws_starts)
  have nb: "d \<noteq> CHR '']''"
    using d(2) by (auto simp: starts_value_def is_digit_def dquote_def)
  have ai: "array_items (d # t) = Inr (vs, rest)"
    unfolding t [symmetric] using assms Cons by (intro array_items_join) simp_all
  have "scan_once (CHR ''['' # ?items) = Inr (JArray vs, rest)"
    by (subst scan_once.simps) (simp add: dquote_def sk nb ai)
  then show ?thesis by simp
qed

lemma scan_once_object:
  assumes "\<And>kv rest. kv \<in> set kvs \<Longrightarrow> ends_value rest \<Longrightarrow>
           scan_once (json_dumps (snd kv) @ rest) = Inr (snd kv, rest)"
    and "distinct (map fst kvs)"
  shows "scan_once (json_dumps (JObject kvs) @ rest) = Inr (JObject kvs, rest)"
proof (cases "kvs = []")
  case True
  then show ?thesis
    by (subst scan_once.simps) (simp add: dquote_def skip_ws_def is_json_ws_def)
next
  case False
  let ?members = "join '', '' (map member_text kvs) @ CHR ''}'' # rest"
  have dumps: "json_dumps (JObject kvs) @ rest = CHR ''{'' # ?members"
    by (simp add: member_text_def [abs_def])
  obtain t where t: "?members = dquote # t"
    using join_members_hd [OF False] by blast
  have sk: "skip_ws ?members = dquote # t"
    unfolding t by (simp add: skip_ws_def is_json_ws_def dquote_def)
  have om: "object_members t = Inr (kvs, rest)"
    using object_members_join [OF False assms(1), of rest] t by simp
  show ?thesis
    unfolding dumps
    by (subst scan_once.simps) (simp add: sk om dict_distinct [OF assms(2)], simp add: dquote_def)
qed

lemma scan_once_dumps:
  "wf_json j \<Longrightarrow> ends_value rest \<Longrightarrow> scan_once (json_dumps j @ rest) = Inr (j, rest)"
proof (induction j arbitrary: rest)
  case JNull
  then show ?case using scan_once_literal(1) by simp
next
  case (JBool b)
  then show ?case using scan_once_literal(2,3) by (cases b) simp_all
next
  case (JInt i)
  then show ?case using scan_once_int by simp
next
  case (JString s)
  then show ?case using scan_once_string by simp
next
  case (JArray vs)
  show ?case
    by (rule scan_once_array) (use JArray in \<open>auto simp: list_all_iff\<close>)
next
  case (JObject kvs)
  have "scan_once (json_dumps (snd kv) @ rest) = Inr (snd kv, rest)"
    if "kv \<in> set kvs" "ends_value rest" for kv rest
    using JObject.IH [of kv "snd kv" rest] JObject.prems(1) that
    by (cases kv) (auto simp: list_all_iff)
  then show ?case
    using JObject.prems(1) by (intro scan_once_object) simp_all
qed

subsection \<open>Lines\<close>

lemma not_space_starts: "starts_value c \<Longrightarrow> \<not> is_py_space c"
  by (auto simp: starts_value_def is_py_space_def is_digit_def dquote_def)

lemma not_space_closes: "closes_value c \<Longrightarrow> \<not> is_py_space c"
  by (auto simp: closes_value_def is_py_space_def is_digit_def dquote_def)

lemma dropWhile_hd: "xs \<noteq> [] \<Longrightarrow> \<not> P (hd xs) \<Longrightarrow> dropWhile P xs = xs"
  by (cases xs) simp_all

lemma strip_dumps_line: "strip (json_dumps j @ [CHR 0x0A]) = json_dumps j"
proof -
  obtain d ds where d: "json_dumps j = d # ds" "starts_value d"
    using json_dumps_hd by blast
  have c: "\<not> is_py_space (last (json_dumps j))"
    using json_dumps_last not_space_closes by blast
  have ne: "rev (json_dumps j) \<noteq> []" using d by simp
  have 1: "dropWhile is_py_space (json_dumps j @ [CHR 0x0A]) = json_dumps j @ [CHR 0x0A]"
    using d not_space_starts by simp
  have "hd (rev (json_dumps j)) = last (json_dumps j)"
    by (simp add: hd_rev)
  with c have "dropWhile is_py_space (rev (json_dumps j)) = rev (json_dumps j)"
    by (intro dropWhile_hd [OF ne]) simp
  moreover have "is_py_space (CHR 0x0A)" by (simp add: is_py_space_def)
  ultimately have 2: "dropWhile is_py_space (rev (json_dumps j @ [CHR 0x0A])) = rev (json_dumps j)"
    by simp
  show ?thesis by (simp only: strip_def 1 2 rev_rev_ident)
qed

lemma loads_dumps:
  assumes "wf_json j"
  shows "json_loads (json_dumps j) = Inr j" and "json_loads (json_dumps j @ [CHR 0x0A]) = Inr j"
proof -
  have "scan_once (json_dumps j @ []) = Inr (j, [])"
    using assms by (intro scan_once_dumps) (simp_all add: ends_value_def)
  then show "json_loads (json_dumps j) = Inr j"
    using skip_ws_dumps [of j "[]"] by (simp add: json_loads_def) (simp add: skip_ws_def)
  have "scan_once (json_dumps j @ [CHR 0x0A]) = Inr (j, [CHR 0x0A])"
    using assms by (intro scan_once_dumps) (simp_all add: ends_value_def)
  then show "json_loads (json_dumps j @ [CHR 0x0A]) = Inr j"
    using skip_ws_dumps [of j "[CHR 0x0A]"]
    by (simp add: json_loads_def) (simp add: skip_ws_def is_json_ws_def)
qed

subsection \<open>The decoder consumes what it reads\<close>

text \<open>
  The comparisons of lengths in \<open>array_items\<close> and \<open>object_members\<close> are there for the
  termination proof only: they always hold, so the two functions satisfy the equations
  without them.
\<close>

lemma cons_chunk_Inr: "cons_chunk c x = Inr (s, r) \<Longrightarrow> \<exists>s'. x = Inr (s', r)"
  by (auto simp: cons_chunk_def split: sum.splits)

lemma scanstring_shorter: "scanstring s = Inr (k, r) \<Longrightarrow> length r < length s"
proof (induction s arbitrary: k rule: scanstring.induct)
  case 1
  then show ?case by simp
next
  case (2 c cs)
  show ?case
  proof (cases "c = dquote")
    case True
    with "2.prems" show ?thesis by simp
  next
    case nq: False
    show ?thesis
    proof (cases "c = backslash")
      case False
      with nq "2.prems" have ge: "\<not> (of_char c :: nat) < 32"
        by (auto split: if_splits)
      with False nq "2.prems" obtain s' where "scanstring cs = Inr (s', r)"
        by (auto dest: cons_chunk_Inr)
      from "2.IH"(3) [OF nq False ge this] show ?thesis by simp
    next
      case True
      then obtain e es where cs: "cs = e # es"
        using "2.prems" nq by (cases cs) auto
      show ?thesis
      proof (cases "e = CHR ''u''")
        case u: True
        then obtain h1 h2 h3 h4 rest n where es: "es = h1 # h2 # h3 # h4 # rest"
          and n: "decode_uXXXX h1 h2 h3 h4 = Some n" "n < 256"
          using "2.prems" nq True cs
          by (auto split: list.splits option.splits if_splits)
        then obtain s' where s': "scanstring rest = Inr (s', r)"
          using "2.prems" nq True cs u by (auto dest: cons_chunk_Inr)
        have "length r < length rest"
          by (rule "2.IH"(1) [OF nq True cs u _ _ _ _ n(1) n(2) s']) (simp_all add: es)
        then show ?thesis
          using cs es by simp
      next
        case nu: False
        then obtain ch where ch: "backslash_table e = Some ch"
          using "2.prems" nq True cs by (auto split: option.splits)
        then obtain s' where "scanstring es = Inr (s', r)"
          using "2.prems" nq True cs nu by (auto dest: cons_chunk_Inr)
        from "2.IH"(2) [OF nq True cs nu ch this] show ?thesis
          using cs by simp
      qed
    qed
  qed
qed

lemma match_number_shorter:
  "match_number s = Some (Inr (v, r)) \<Longrightarrow> length r < length s"
proof -
  have le: "length (dropWhile is_digit t) \<le> length t" for t
    by (rule length_dropWhile_le)
  assume "match_number s = Some (Inr (v, r))"
  then show ?thesis
    using le [of "tl s"] le [of "tl (tl s)"]
    by (cases s; cases "tl s") (auto simp: match_number_def Let_def split: list.splits if_splits)
qed

lemma skip_ws_le: "length (skip_ws s) \<le> length s"
  by (simp add: skip_ws_def length_dropWhile_le)

lemma skip_ws_Cons_lt: "skip_ws s = c # cs \<Longrightarrow> length cs < length s"
  using skip_ws_le [of s] by simp

lemma consumes:
  "scan_once s = Inr (v, r) \<Longrightarrow> length r < length s"
  "array_items s1 = Inr (vs, r1) \<Longrightarrow> length r1 < length s1"
  "object_members s2 = Inr (kvs, r2) \<Longrightarrow> length r2 < length s2"
proof (induction s and s1 and s2 arbitrary: v r and vs r1 and kvs r2
    rule: scan_once_array_items_object_members.induct)
  case (1 s)
  from "1.prems" obtain c cs where s: "s = c # cs"
    by (subst (asm) scan_once.simps) (cases s, auto)
  show ?case
  proof (cases "c = dquote")
    case True
    with "1.prems" s obtain str where "scanstring cs = Inr (str, r)"
      by (subst (asm) scan_once.simps) (auto split: sum.splits)
    then show ?thesis using scanstring_shorter s by fastforce
  next
    case nq: False
    show ?thesis
    proof (cases "c = CHR ''{''")
      case True
      then obtain d ds where sk: "skip_ws cs = d # ds"
        using "1.prems" s nq by (subst (asm) scan_once.simps) (auto split: list.splits)
      note lt = skip_ws_Cons_lt [OF sk]
      show ?thesis
      proof (cases "d = CHR ''}''")
        case True
        with "1.prems" s nq \<open>c = CHR ''{''\<close> sk lt show ?thesis
          by (subst (asm) scan_once.simps) auto
      next
        case False
        with "1.prems" s nq \<open>c = CHR ''{''\<close> sk obtain pairs where dq: "d = dquote"
          and om: "object_members ds = Inr (pairs, r)"
          by (subst (asm) scan_once.simps) (auto split: sum.splits if_splits)
        from "1.IH"(1) [OF s nq \<open>c = CHR ''{''\<close> sk False dq om] lt s show ?thesis by simp
      qed
    next
      case nb: False
      show ?thesis
      proof (cases "c = CHR ''[''")
        case True
        then obtain d ds where sk: "skip_ws cs = d # ds"
          using "1.prems" s nq nb by (subst (asm) scan_once.simps) (auto split: list.splits)
        note lt = skip_ws_Cons_lt [OF sk]
        show ?thesis
        proof (cases "d = CHR '']''")
          case True
          with "1.prems" s nq nb \<open>c = CHR ''[''\<close> sk lt show ?thesis
            by (subst (asm) scan_once.simps) auto
        next
          case False
          with "1.prems" s nq nb \<open>c = CHR ''[''\<close> sk obtain items where
            ai: "array_items (d # ds) = Inr (items, r)"
            by (subst (asm) scan_once.simps) (auto split: sum.splits if_splits)
          from "1.IH"(2) [OF s nq nb \<open>c = CHR ''[''\<close> sk False ai] lt s show ?thesis by simp
        qed
      next
        case False
        with "1.prems" s nq nb have
          "(take 4 s = ''null'' \<and> r = drop 4 s) \<or> (take 4 s = ''true'' \<and> r = drop 4 s) \<or>
           (take 5 s = ''false'' \<and> r = drop 5 s) \<or> match_number s = Some (Inr (v, r))"
          by (subst (asm) scan_once.simps) (auto split: if_splits option.splits)
        then show ?thesis
          using match_number_shorter [of s v r] s by auto
      qed
    qed
  qed
next
  case (2 s)
  from "2.prems" obtain v r where so: "scan_once s = Inr (v, r)"
    by (subst (asm) array_items.simps) (auto split: sum.splits)
  from "2.IH"(1) [OF this] have lr: "length r < length s" .
  from "2.prems" so obtain d ds where sk: "skip_ws r = d # ds"
    by (subst (asm) array_items.simps) (auto split: list.splits)
  note lt = skip_ws_Cons_lt [OF sk]
  show ?case
  proof (cases "d = CHR '']''")
    case True
    with "2.prems" so sk lt lr show ?thesis
      by (subst (asm) array_items.simps) auto
  next
    case False
    with "2.prems" so sk obtain vs' where c: "d = CHR '',''" "length ds < length s"
      and ai: "array_items (skip_ws ds) = Inr (vs', r1)"
      by (subst (asm) array_items.simps) (auto split: sum.splits if_splits)
    from "2.IH"(2) [OF so refl sk False c ai] skip_ws_le [of ds] c(2)
    show ?thesis by simp
  qed
next
  case (3 s)
  from "3.prems" obtain key r where ss: "scanstring s = Inr (key, r)"
    by (subst (asm) object_members.simps) (auto split: sum.splits)
  from "3.prems" ss obtain c r1 where sk: "skip_ws r = c # r1"
    by (subst (asm) object_members.simps) (auto split: list.splits)
  from "3.prems" ss sk have colon: "\<not> c \<noteq> CHR '':''" and g1: "\<not> \<not> length r1 < length s"
    by (subst (asm) object_members.simps, auto split: if_splits)+
  from "3.prems" ss sk colon g1 obtain v r' where so: "scan_once (skip_ws r1) = Inr (v, r')"
    by (subst (asm) object_members.simps) (auto split: sum.splits)
  from "3.IH"(1) [OF ss refl sk colon g1 so] have l1: "length r' < length (skip_ws r1)" .
  from "3.prems" ss sk colon g1 so obtain d r3 where sk2: "skip_ws r' = d # r3"
    by (subst (asm) object_members.simps) (auto split: list.splits)
  have l2: "length r3 < length s"
    using skip_ws_Cons_lt [OF sk2] l1 skip_ws_le [of r1] g1 by simp
  show ?case
  proof (cases "d = CHR ''}''")
    case True
    with "3.prems" ss sk colon g1 so sk2 l2 show ?thesis
      by (subst (asm) object_members.simps) auto
  next
    case False
    with "3.prems" ss sk colon g1 so sk2 have comma: "d = CHR '',''"
      by (subst (asm) object_members.simps) (auto split: if_splits)
    with "3.prems" ss sk colon g1 so sk2 False obtain q r4 where sk3: "skip_ws r3 = q # r4"
      by (subst (asm) object_members.simps) (auto split: list.splits)
    with "3.prems" ss sk colon g1 so sk2 False comma obtain kvs' where
      q: "\<not> q \<noteq> dquote" and g2: "length r4 < length s"
      and om: "object_members r4 = Inr (kvs', r2)"
      by (subst (asm) object_members.simps) (auto split: sum.splits if_splits)
    from "3.IH"(2) [OF ss refl sk colon g1 so refl sk2 False comma sk3 q g2 om] g2
    show ?thesis by simp
  qed
qed

lemma array_items_unguarded:
  "array_items s =
     (case scan_once s of
        Inl e \<Rightarrow> Inl e
      | Inr (v, r) \<Rightarrow>
          (case skip_ws r of
             [] \<Rightarrow> Inl JSONDecodeError
           | d # ds \<Rightarrow>
               if d = CHR '']'' then Inr ([v], ds)
               else if d = CHR '','' then
                 (case array_items (skip_ws ds) of
                    Inl e \<Rightarrow> Inl e
                  | Inr (vs, rest) \<Rightarrow> Inr (v # vs, rest))
               else Inl JSONDecodeError))"
proof -
  have "length ds < length s" if "scan_once s = Inr (v, r)" "skip_ws r = d # ds" for v r d ds
    using consumes(1) [OF that(1)] skip_ws_Cons_lt [OF that(2)] by simp
  then show ?thesis
    by (subst array_items.simps) (auto split: sum.splits list.splits)
qed

lemma object_members_unguarded:
  "object_members s =
     (case scanstring s of
        Inl e \<Rightarrow> Inl e
      | Inr (key, r) \<Rightarrow>
          (case skip_ws r of
             [] \<Rightarrow> Inl JSONDecodeError
           | c # r1 \<Rightarrow>
               if c \<noteq> CHR '':'' then Inl JSONDecodeError
               else
                 (case scan_once (skip_ws r1) of
                    Inl e \<Rightarrow> Inl e
                  | Inr (v, r2) \<Rightarrow>
                      (case skip_ws r2 of
                         [] \<Rightarrow> Inl JSONDecodeError
                       | d # r3 \<Rightarrow>
                           if d = CHR ''}'' then Inr ([(key, v)], r3)
                           else if d = CHR '','' then
                             (case skip_ws r3 of
                                [] \<Rightarrow> Inl JSONDecodeError
                              | q # r4 \<Rightarrow>
                                  if q \<noteq> dquote then Inl JSONDecodeError
                                  else
                                    (case object_members r4 of
                                       Inl e \<Rightarrow> Inl e
                                     | Inr (kvs, rest) \<Rightarrow> Inr ((key, v) # kvs, rest)))
                           else Inl JSONDecodeError))))"
proof -
  have g1: "length r1 < length s" if "scanstring s = Inr (key, r)" "skip_ws r = c # r1" for key r c r1
    using scanstring_shorter [OF that(1)] skip_ws_Cons_lt [OF that(2)] by simp
  have g2: "length r4 < length s"
    if "scanstring s = Inr (key, r)" "skip_ws r = c # r1" "scan_once (skip_ws r1) = Inr (v, r2)"
      "skip_ws r2 = d # r3" "skip_ws r3 = q # r4" for key r c r1 v r2 d r3 q r4
    using g1 [OF that(1,2)] consumes(1) [OF that(3)] skip_ws_le [of r1]
      skip_ws_Cons_lt [OF that(4)] skip_ws_Cons_lt [OF that(5)] by simp
  show ?thesis
    by (subst object_members.simps) (auto split: sum.splits list.splits dest: g1 g2)
qed

subsection \<open>What the decoder returns\<close>

text \<open>
  A decoded value is a Python value (the keys of its dicts are distinct, so \<open>map_of\<close>
  is the lookup of the dict), and a failure is a \<^verbatim>\<open>JSONDecodeError\<close> or lies outside the
  model.
\<close>

lemma cons_chunk_Inl: "cons_chunk c x = Inl e \<Longrightarrow> x = Inl e"
  by (auto simp: cons_chunk_def split: sum.splits)

lemma scanstring_failure: "scanstring s = Inl e \<Longrightarrow> decode_failure e"
  by (induction s rule: scanstring.induct)
    (auto simp: decode_failure_def split: if_splits list.splits option.splits dest!: cons_chunk_Inl)

lemma match_number_outcome:
  "match_number s = Some x \<Longrightarrow> x = Inl Unmodelled \<or> (\<exists>i r. x = Inr (JInt i, r))"
  by (auto simp: match_number_def Let_def split: list.splits if_splits)

lemma update_values:
  "list_all P (map snd al) \<Longrightarrow> P v \<Longrightarrow> list_all P (map snd (AList.update k v al))"
  by (induction al) auto

lemma dict_wf:
  assumes "list_all (\<lambda>kv. wf_json (snd kv)) pairs"
  shows "wf_json (JObject (dict pairs))"
proof -
  have "distinct (map fst (foldl (\<lambda>d kv. AList.update (fst kv) (snd kv) d) acc pairs)) \<and>
        list_all wf_json (map snd (foldl (\<lambda>d kv. AList.update (fst kv) (snd kv) d) acc pairs))"
    if "distinct (map fst acc)" "list_all wf_json (map snd acc)" for acc
    using that assms
  proof (induction pairs arbitrary: acc)
    case Nil
    then show ?case by simp
  next
    case (Cons kv pairs)
    have "distinct (map fst (AList.update (fst kv) (snd kv) acc))"
      using Cons.prems(1) by (simp add: distinct_update)
    moreover have "list_all wf_json (map snd (AList.update (fst kv) (snd kv) acc))"
      using Cons.prems(2,3) by (intro update_values) simp_all
    ultimately show ?case
      using Cons.IH [of "AList.update (fst kv) (snd kv) acc"] Cons.prems(3) by simp
  qed
  from this [of "[]"] show ?thesis
    by (simp add: dict_def list_all_iff)
qed

lemma scan_once_Nil: "scan_once [] = Inl JSONDecodeError"
  by (subst scan_once.simps) simp

lemma scan_once_quote:
  "scan_once (dquote # cs) =
     (case scanstring cs of Inl e \<Rightarrow> Inl e | Inr (str, rest) \<Rightarrow> Inr (JString str, rest))"
  by (subst scan_once.simps) simp

lemma scan_once_brace:
  "scan_once (CHR ''{'' # cs) =
     (case skip_ws cs of
        [] \<Rightarrow> Inl JSONDecodeError
      | d # ds \<Rightarrow>
          if d = CHR ''}'' then Inr (JObject [], ds)
          else if d = dquote then
            (case object_members ds of
               Inl e \<Rightarrow> Inl e
             | Inr (pairs, rest) \<Rightarrow> Inr (JObject (dict pairs), rest))
          else Inl JSONDecodeError)"
  by (subst scan_once.simps) (simp add: dquote_def)

lemma scan_once_bracket:
  "scan_once (CHR ''['' # cs) =
     (case skip_ws cs of
        [] \<Rightarrow> Inl JSONDecodeError
      | d # ds \<Rightarrow>
          if d = CHR '']'' then Inr (JArray [], ds)
          else
            (case array_items (d # ds) of
               Inl e \<Rightarrow> Inl e
             | Inr (vs, rest) \<Rightarrow> Inr (JArray vs, rest)))"
  by (subst scan_once.simps) (simp add: dquote_def)

lemma scan_once_scalar:
  assumes "c \<noteq> dquote" "c \<noteq> CHR ''{''" "c \<noteq> CHR ''[''"
  shows "(\<forall>e. scan_once (c # cs) = Inl e \<longrightarrow> decode_failure e) \<and>
         (\<forall>v r. scan_once (c # cs) = Inr (v, r) \<longrightarrow> wf_json v)"
proof -
  have eq: "scan_once (c # cs) =
     (if take 4 (c # cs) = ''null'' then Inr (JNull, drop 4 (c # cs))
      else if take 4 (c # cs) = ''true'' then Inr (JBool True, drop 4 (c # cs))
      else if take 5 (c # cs) = ''false'' then Inr (JBool False, drop 5 (c # cs))
      else
        (case match_number (c # cs) of
           Some r \<Rightarrow> r
         | None \<Rightarrow>
             if take 3 (c # cs) = ''NaN'' \<or> take 8 (c # cs) = ''Infinity'' \<or> take 9 (c # cs) = ''-Infinity''
             then Inl Unmodelled
             else Inl JSONDecodeError))"
    using assms by (subst scan_once.simps) simp
  show ?thesis
  proof (cases "match_number (c # cs)")
    case None
    show ?thesis
      unfolding eq None by (simp add: decode_failure_def del: take_Suc_Cons drop_Suc_Cons)
  next
    case (Some x)
    from match_number_outcome [OF Some] show ?thesis
      unfolding eq Some by (auto simp: decode_failure_def simp del: take_Suc_Cons drop_Suc_Cons)
  qed
qed

lemma dict_wf_parts:
  assumes "list_all (\<lambda>kv. wf_json (snd kv)) pairs"
  shows "distinct (map fst (dict pairs))" and "list_all (\<lambda>kv. wf_json (snd kv)) (dict pairs)"
  using dict_wf [OF assms] by simp_all

lemma decoder_outcomes:
  "(\<forall>e. scan_once s = Inl e \<longrightarrow> decode_failure e) \<and>
   (\<forall>v r. scan_once s = Inr (v, r) \<longrightarrow> wf_json v)"
  "(\<forall>e. array_items s1 = Inl e \<longrightarrow> decode_failure e) \<and>
   (\<forall>vs r. array_items s1 = Inr (vs, r) \<longrightarrow> list_all wf_json vs)"
  "(\<forall>e. object_members s2 = Inl e \<longrightarrow> decode_failure e) \<and>
   (\<forall>kvs r. object_members s2 = Inr (kvs, r) \<longrightarrow> list_all (\<lambda>kv. wf_json (snd kv)) kvs)"
proof (induction s and s1 and s2 rule: scan_once_array_items_object_members.induct)
  case (1 s)
  show ?case
  proof (cases s)
    case Nil
    then show ?thesis by (simp add: scan_once_Nil decode_failure_def)
  next
    case (Cons c cs)
    consider "c = dquote" | "c \<noteq> dquote" "c = CHR ''{''" | "c \<noteq> dquote" "c \<noteq> CHR ''{''" "c = CHR ''[''"
      | "c \<noteq> dquote" "c \<noteq> CHR ''{''" "c \<noteq> CHR ''[''" by blast
    then show ?thesis
    proof cases
      case 1
      then show ?thesis
        using scanstring_failure [of cs]
        by (auto simp: Cons scan_once_quote split: sum.splits)
    next
      case 2
      show ?thesis
      proof (cases "skip_ws cs")
        case Nil
        then show ?thesis by (simp add: Cons 2 scan_once_brace decode_failure_def)
      next
        case sk: (Cons d ds)
        show ?thesis
        proof (cases "d \<noteq> CHR ''}'' \<and> d = dquote")
          case True
          then have "(\<forall>e. object_members ds = Inl e \<longrightarrow> decode_failure e) \<and>
              (\<forall>kvs r. object_members ds = Inr (kvs, r) \<longrightarrow> list_all (\<lambda>kv. wf_json (snd kv)) kvs)"
            using "1.IH"(1) [OF Cons 2(1) 2(2) sk] by blast
          with True show ?thesis
            by (auto simp: Cons 2 scan_once_brace sk dict_wf_parts split: sum.splits)
        next
          case False
          then show ?thesis
            by (auto simp: Cons 2 scan_once_brace sk decode_failure_def)
        qed
      qed
    next
      case 3
      show ?thesis
      proof (cases "skip_ws cs")
        case Nil
        then show ?thesis by (simp add: Cons 3 scan_once_bracket decode_failure_def)
      next
        case sk: (Cons d ds)
        show ?thesis
        proof (cases "d = CHR '']''")
          case True
          then show ?thesis by (simp add: Cons 3 scan_once_bracket sk)
        next
          case False
          have "(\<forall>e. array_items (d # ds) = Inl e \<longrightarrow> decode_failure e) \<and>
              (\<forall>vs r. array_items (d # ds) = Inr (vs, r) \<longrightarrow> list_all wf_json vs)"
            using "1.IH"(2) [OF Cons 3(1) 3(2) 3(3) sk False] by blast
          with False show ?thesis
            by (auto simp: Cons 3 scan_once_bracket sk split: sum.splits)
        qed
      qed
    next
      case 4
      then show ?thesis unfolding Cons by (rule scan_once_scalar)
    qed
  qed
next
  case (2 s)
  show ?case
  proof (cases "scan_once s")
    case (Inl e)
    with "2.IH"(1) show ?thesis
      by (subst array_items.simps, subst (2) array_items.simps) simp
  next
    case (Inr b)
    obtain v r where b: "b = (v, r)" by (cases b)
    have wv: "wf_json v" using "2.IH"(1) Inr b by blast
    show ?thesis
    proof (cases "skip_ws r")
      case Nil
      with Inr b show ?thesis
        by (subst array_items.simps, subst (2) array_items.simps) (simp add: decode_failure_def)
    next
      case sk: (Cons d ds)
      show ?thesis
      proof (cases "d \<noteq> CHR '']'' \<and> d = CHR '','' \<and> length ds < length s")
        case True
        then have "(\<forall>e. array_items (skip_ws ds) = Inl e \<longrightarrow> decode_failure e) \<and>
            (\<forall>vs r. array_items (skip_ws ds) = Inr (vs, r) \<longrightarrow> list_all wf_json vs)"
          using "2.IH"(2) [OF Inr b [symmetric] sk] by blast
        with True Inr b sk wv show ?thesis
          by (subst array_items.simps, subst (2) array_items.simps) (auto split: sum.splits)
      next
        case False
        with Inr b sk wv show ?thesis
          by (subst array_items.simps, subst (2) array_items.simps) (auto simp: decode_failure_def)
      qed
    qed
  qed
next
  case (3 s)
  note unfold = object_members.simps [of s]
  show ?case
  proof (cases "scanstring s")
    case (Inl e)
    with scanstring_failure [of s] show ?thesis
      unfolding unfold by simp
  next
    case (Inr b)
    obtain key r where b: "b = (key, r)" by (cases b)
    show ?thesis
    proof (cases "skip_ws r")
      case Nil
      with Inr b show ?thesis unfolding unfold by (simp add: decode_failure_def)
    next
      case sk: (Cons c r1)
      show ?thesis
      proof (cases "\<not> c \<noteq> CHR '':'' \<and> \<not> \<not> length r1 < length s")
        case False
        with Inr b sk show ?thesis unfolding unfold by (auto simp: decode_failure_def)
      next
        case True
        then have colon: "\<not> c \<noteq> CHR '':''" and g1: "\<not> \<not> length r1 < length s" by simp_all
        note IH1 = "3.IH"(1) [OF Inr b [symmetric] sk colon g1]
        show ?thesis
        proof (cases "scan_once (skip_ws r1)")
          case so: (Inl e)
          with IH1 Inr b sk True show ?thesis unfolding unfold by simp
        next
          case so: (Inr b2)
          obtain v r2 where b2: "b2 = (v, r2)" by (cases b2)
          have wv: "wf_json v" using IH1 so b2 by blast
          show ?thesis
          proof (cases "skip_ws r2")
            case Nil
            with Inr b sk True so b2 show ?thesis unfolding unfold by (simp add: decode_failure_def)
          next
            case sk2: (Cons d r3)
            show ?thesis
            proof (cases "d \<noteq> CHR ''}'' \<and> d = CHR '',''")
              case False
              with Inr b sk True so b2 sk2 wv show ?thesis
                unfolding unfold by (auto simp: decode_failure_def)
            next
              case comma: True
              show ?thesis
              proof (cases "skip_ws r3")
                case Nil
                with Inr b sk True so b2 sk2 comma show ?thesis
                  unfolding unfold by (simp add: decode_failure_def)
              next
                case sk3: (Cons q r4)
                show ?thesis
                proof (cases "\<not> q \<noteq> dquote \<and> length r4 < length s")
                  case False
                  with Inr b sk True so b2 sk2 comma sk3 show ?thesis
                    unfolding unfold by (auto simp: decode_failure_def)
                next
                  case g2: True
                  have "(\<forall>e. object_members r4 = Inl e \<longrightarrow> decode_failure e) \<and>
                      (\<forall>kvs r. object_members r4 = Inr (kvs, r) \<longrightarrow>
                         list_all (\<lambda>kv. wf_json (snd kv)) kvs)"
                    using "3.IH"(2) [OF Inr b [symmetric] sk colon g1 so b2 [symmetric] sk2 _ _ sk3]
                      comma g2 by blast
                  with Inr b sk True so b2 sk2 comma sk3 g2 wv show ?thesis
                    unfolding unfold by (auto split: sum.splits)
                qed
              qed
            qed
          qed
        qed
      qed
    qed
  qed
qed

lemma json_loads_outcomes:
  "json_loads s = Inl e \<Longrightarrow> e = JSONDecodeError \<or> e = Unmodelled"
  "json_loads s = Inr v \<Longrightarrow> wf_json v"
  using decoder_outcomes(1) [of "skip_ws s"]
  by (auto simp: json_loads_def decode_failure_def split: sum.splits if_splits)

subsection \<open>The messages of the protocol\<close>

text \<open>
  C4. Every protocol message survives the wire: a tool-description wrapper, a tool call,
  a tool result and an error message, encoded as one line by \<^verbatim>\<open>json.dumps(m) + "\n"\<close> (the
  bridge) or \<^verbatim>\<open>print(json.dumps(m))\<close> (the tools), decode to the same message, both the
  way the bridge reads a line (\<^verbatim>\<open>read_lines\<close> strips it, then \<^verbatim>\<open>json.loads\<close>) and the way a
  tool reads one (\<^verbatim>\<open>json.loads\<close> of the line with its newline). The payloads are Python
  values: the keys of every dict are distinct.
\<close>

theorem messages_round_trip:
  assumes "m = tool_description tools \<and> list_all wf_json tools \<or>
           m = tool_call tool input_data \<and> distinct (map fst input_data) \<or>
           m = tool_result output \<and> wf_json output \<or>
           m = error_message e"
  shows "json_loads (strip (json_dumps m @ [CHR 0x0A])) = Inr m \<and>
         json_loads (json_dumps m @ [CHR 0x0A]) = Inr m"
proof -
  have "distinct (map fst (map (\<lambda>kv. (fst kv, JString (snd kv))) input_data))"
    if "distinct (map fst input_data)"
    using that by (simp add: comp_def)
  then have "wf_json (tool_call tool input_data)" if "distinct (map fst input_data)"
    using that by (simp add: tool_call_def list_all_iff)
  moreover have "wf_json (tool_description tools)" if "list_all wf_json tools"
    using that by (simp add: tool_description_def)
  moreover have "wf_json (tool_result output)" if "wf_json output"
    using that by (simp add: tool_result_def)
  moreover have "wf_json (error_message e)"
    by (simp add: error_message_def)
  ultimately have "wf_json m"
    using assms by blast
  then show ?thesis
    by (simp add: strip_dumps_line loads_dumps)
qed

theorem messages_round_trip_witness:
  "json_loads (strip (json_dumps (tool_call ''get-time'' [(''location'', ''Paris'')]) @ [CHR 0x0A]))
     = Inr (tool_call ''get-time'' [(''location'', ''Paris'')]) \<and>
   json_loads (json_dumps (tool_call ''get-time'' [(''location'', ''Paris'')]) @ [CHR 0x0A])
     = Inr (tool_call ''get-time'' [(''location'', ''Paris'')]) \<and>
   json_loads (strip (json_dumps (error_message ''boom'') @ [CHR 0x0A])) = Inr (error_message ''boom'') \<and>
   json_loads (strip (json_dumps (tool_result paris_time) @ [CHR 0x0A])) = Inr (tool_result paris_time) \<and>
   json_loads (strip (json_dumps (tool_description [get_time_tool]) @ [CHR 0x0A]))
     = Inr (tool_description [get_time_tool])"
proof -
  have "wf_json paris_time" by (simp add: paris_time_def)
  moreover have "list_all wf_json [get_time_tool]" by (simp add: get_time_tool_def)
  ultimately show ?thesis
    using messages_round_trip
            [of "tool_call ''get-time'' [(''location'', ''Paris'')]" _ "''get-time''"
                "[(''location'', ''Paris'')]"]
          messages_round_trip [of "error_message ''boom''" _ _ _ _ "''boom''"]
          messages_round_trip [of "tool_result paris_time" _ _ _ paris_time]
          messages_round_trip [of "tool_description [get_time_tool]" "[get_time_tool]"]
    by simp
qed

section \<open>The waiting loop\<close>

lemma busy_wait_ready: "stdout_buffer h \<noteq> [] \<Longrightarrow> busy_wait h = Some h"
  by (subst busy_wait.simps) simp

lemma busy_wait_step: "stdout_buffer h = [] \<Longrightarrow> busy_wait h = busy_wait (run_quantum h)"
  by (subst busy_wait.simps) simp

lemma busy_wait_Some_D:
  assumes "busy_wait h = Some h'"
  shows "\<exists>n. stdout_buffer ((run_quantum ^^ n) h) \<noteq> []"
proof (rule busy_wait.raw_induct
    [where P = "\<lambda>h h'. \<exists>n. stdout_buffer ((run_quantum ^^ n) h) \<noteq> []", OF _ assms])
  fix w :: "'a subprocess \<Rightarrow> 'a subprocess option" and h h'
  assume IH: "\<And>x y. w x = Some y \<Longrightarrow> \<exists>n. stdout_buffer ((run_quantum ^^ n) x) \<noteq> []"
    and eq: "(if stdout_buffer h \<noteq> [] then Some h else w (run_quantum h)) = Some h'"
  show "\<exists>n. stdout_buffer ((run_quantum ^^ n) h) \<noteq> []"
  proof (cases "stdout_buffer h = []")
    case True
    with eq IH obtain n where "stdout_buffer ((run_quantum ^^ n) (run_quantum h)) \<noteq> []"
      by auto
    then have "stdout_buffer ((run_quantum ^^ Suc n) h) \<noteq> []"
      by (simp add: funpow_swap1)
    then show ?thesis by blast
  next
    case False
    then have "stdout_buffer ((run_quantum ^^ 0) h) \<noteq> []" by simp
    then show ?thesis by blast
  qed
qed

lemma busy_wait_never:
  "\<forall>n. stdout_buffer ((run_quantum ^^ n) h) = [] \<Longrightarrow> busy_wait h = None"
  using busy_wait_Some_D [of h] by (cases "busy_wait h") auto

lemma busy_wait_arrives:
  "stdout_buffer ((run_quantum ^^ n) h) \<noteq> [] \<Longrightarrow>
   \<exists>m\<le>n. busy_wait h = Some ((run_quantum ^^ m) h)"
proof (induction n arbitrary: h)
  case 0
  then show ?case by (simp add: busy_wait_ready)
next
  case (Suc n)
  show ?case
  proof (cases "stdout_buffer h = []")
    case True
    from Suc.prems have "stdout_buffer ((run_quantum ^^ n) (run_quantum h)) \<noteq> []"
      by (simp add: funpow_swap1)
    from Suc.IH [OF this] obtain m where "m \<le> n"
      and "busy_wait (run_quantum h) = Some ((run_quantum ^^ m) (run_quantum h))" by blast
    then have "Suc m \<le> Suc n \<and> busy_wait h = Some ((run_quantum ^^ Suc m) h)"
      using True by (simp add: busy_wait_step funpow_swap1)
    then show ?thesis by blast
  next
    case False
    then have "busy_wait h = Some ((run_quantum ^^ 0) h)" by (simp add: busy_wait_ready)
    then show ?thesis by blast
  qed
qed



lemma mute_stays: "(run_quantum ^^ n) (Popen mute) = Popen mute"
  by (induction n) (simp_all add: run_quantum_def Popen_def mute_def read_lines_def)

lemma mute_buffer: "stdout_buffer ((run_quantum ^^ n) (Popen mute)) = []"
  by (simp add: mute_stays) (simp add: Popen_def)

lemma run_quantum_written: "stdin_written (run_quantum h) = stdin_written h"
  by (simp add: run_quantum_def split: prod.splits)

lemma busy_wait_written: 
  assumes "busy_wait h = Some h'" shows "stdin_written h' = stdin_written h"
proof -
  from assms obtain n where "stdout_buffer ((run_quantum ^^ n) h) \<noteq> []"
    using busy_wait_Some_D by blast
  then obtain m where "busy_wait h = Some ((run_quantum ^^ m) h)"
    using busy_wait_arrives by blast
  with assms have "h' = (run_quantum ^^ m) h" by simp
  moreover have "stdin_written ((run_quantum ^^ m) h) = stdin_written h"
    by (induction m) (simp_all add: run_quantum_written)
  ultimately show ?thesis by simp
qed

section \<open>Runs against a scripted tool\<close>

lemma scripted_first_quantum:
  "run_quantum (Popen (scripted startup reply)) =
     \<lparr>program = scripted startup reply, state = True, stdin_pipe = [], stdin_written = [],
      stdout_buffer = map strip startup, killed = False\<rparr>"
  by (simp add: run_quantum_def Popen_def scripted_def read_lines_def)

lemma scripted_wait_description:
  assumes "startup \<noteq> []"
  shows "busy_wait (Popen (scripted startup reply)) =
     Some \<lparr>program = scripted startup reply, state = True, stdin_pipe = [], stdin_written = [],
           stdout_buffer = map strip startup, killed = False\<rparr>"
proof -
  have "stdout_buffer (Popen (scripted startup reply)) = []"
    by (simp add: Popen_def)
  then have "busy_wait (Popen (scripted startup reply)) =
      busy_wait (run_quantum (Popen (scripted startup reply)))"
    by (rule busy_wait_step)
  also have "\<dots> = Some (run_quantum (Popen (scripted startup reply)))"
    using assms by (intro busy_wait_ready) (simp add: scripted_first_quantum)
  finally show ?thesis by (simp add: scripted_first_quantum)
qed

lemma scripted_call_cycle:
  assumes "map strip (reply (json_dumps message @ [CHR 0x0A])) = r # rs"
  shows "call_cycle (Some (scripted [d] reply)) message =
     Some (Inr (r, \<lparr>program = scripted [d] reply, state = True, stdin_pipe = [],
                    stdin_written = [json_dumps message @ [CHR 0x0A]],
                    stdout_buffer = rs, killed = False\<rparr>))"
proof -
  let ?S = "scripted [d] reply"
  let ?l = "json_dumps message @ [CHR 0x0A]"
  let ?h2 = "\<lparr>program = ?S, state = True, stdin_pipe = [?l], stdin_written = [?l],
             stdout_buffer = [], killed = False\<rparr>"
  let ?h3 = "\<lparr>program = ?S, state = True, stdin_pipe = [], stdin_written = [?l],
             stdout_buffer = r # rs, killed = False\<rparr>"
  have "busy_wait ?h2 = busy_wait (run_quantum ?h2)"
    by (intro busy_wait_step) simp
  also have "run_quantum ?h2 = ?h3"
    using assms by (simp add: run_quantum_def scripted_def read_lines_def)
  finally have w2: "busy_wait ?h2 = Some ?h3"
    by (simp add: busy_wait_ready)
  show ?thesis
    using w2
    by (simp add: call_cycle_def scripted_wait_description pop0_def stdin_write_def)
      (simp add: scripted_def)
qed


lemma time_description_loads:
  "json_loads (strip time_description) = Inr (tool_description [get_time_tool])"
  by code_simp

lemma get_time_registered: "register_tools strict [get_time_tool] = Inr time_app"
  by code_simp



lemma scripted_unanswered:
  "stdout_buffer ((run_quantum ^^ n)
      \<lparr>program = scripted startup silent, state = True, stdin_pipe = pipe, stdin_written = w,
       stdout_buffer = [], killed = False\<rparr>) = []"
proof -
  let ?h = "\<lambda>pipe. \<lparr>program = scripted startup silent, state = True, stdin_pipe = pipe,
                    stdin_written = w, stdout_buffer = [], killed = False\<rparr>"
  have step: "run_quantum (?h pipe) = ?h []" for pipe
    by (simp add: run_quantum_def scripted_def read_lines_def silent_def)
  have "(run_quantum ^^ n) (?h pipe) = (if n = 0 then ?h pipe else ?h [])"
  proof (induction n)
    case 0
    show ?case by simp
  next
    case (Suc n)
    then show ?case by (simp add: step)
  qed
  then show ?thesis by simp
qed

section \<open>Waiting for a tool that stays silent\<close>

text \<open>
  C1. The claim: a subprocess that never emits a description line makes the describe
  step, and the waits of an endpoint call, fail with a TimeoutError within a bound.
  The code has no bound: the loop \<^verbatim>\<open>while not stdout_buffer: pass\<close> ends only when a line
  has arrived. So, as amended: if no line ever reaches the buffer, \<^verbatim>\<open>create_app\<close> never
  returns, and neither does a call of \<^verbatim>\<open>tool_endpoint\<close>; and if the description arrives
  but no line ever follows the tool call, the call of \<^verbatim>\<open>tool_endpoint\<close> never returns
  either. No exception is raised.
\<close>

theorem wait_without_line_never_returns:
  "((\<forall>n. stdout_buffer ((run_quantum ^^ n) (Popen p)) = []) \<longrightarrow>
      create_app lib (Some p) = None \<and> tool_endpoint (Some p) request_data tool = None) \<and>
   (busy_wait (Popen p) = Some h \<longrightarrow> pop0 h = Inr (description, h1) \<longrightarrow>
    stdin_write h1 (json_dumps (tool_call tool request_data) @ [CHR 0x0A]) = Inr h2 \<longrightarrow>
    (\<forall>n. stdout_buffer ((run_quantum ^^ n) h2) = []) \<longrightarrow>
      tool_endpoint (Some p) request_data tool = None)"
  by (auto simp: create_app_def tool_endpoint_def call_cycle_def dest!: busy_wait_never)

theorem wait_without_line_never_returns_witness:
  "create_app strict (Some mute) = None \<and>
   tool_endpoint (Some mute) [(''location'', ''Paris'')] ''get-time'' = None \<and>
   tool_endpoint (Some (scripted [time_description] silent)) [(''location'', ''Paris'')] ''get-time'' = None"
proof -
  let ?S = "scripted [time_description] silent"
  let ?l = "json_dumps (tool_call ''get-time'' [(''location'', ''Paris'')]) @ [CHR 0x0A]"
  let ?h1 = "\<lparr>program = ?S, state = True, stdin_pipe = [], stdin_written = [],
              stdout_buffer = [], killed = False\<rparr>"
  let ?h2 = "\<lparr>program = ?S, state = True, stdin_pipe = [?l], stdin_written = [?l],
              stdout_buffer = [], killed = False\<rparr>"
  have 1: "\<forall>n. stdout_buffer ((run_quantum ^^ n) (Popen mute)) = []"
    by (simp add: mute_buffer)
  have 2: "busy_wait (Popen ?S) =
      Some \<lparr>program = ?S, state = True, stdin_pipe = [], stdin_written = [],
            stdout_buffer = map strip [time_description], killed = False\<rparr>"
    by (rule scripted_wait_description) simp
  have 3: "pop0 \<lparr>program = ?S, state = True, stdin_pipe = [], stdin_written = [],
            stdout_buffer = map strip [time_description], killed = False\<rparr> = Inr (strip time_description, ?h1)"
    by (simp add: pop0_def)
  have 4: "stdin_write ?h1 ?l = Inr ?h2"
    by (simp add: stdin_write_def scripted_def)
  have 5: "\<forall>n. stdout_buffer ((run_quantum ^^ n) ?h2) = []"
    by (simp add: scripted_unanswered)
  show ?thesis
    using wait_without_line_never_returns [of mute strict "[(''location'', ''Paris'')]" "''get-time''"] 1
      wait_without_line_never_returns [of ?S strict "[(''location'', ''Paris'')]" "''get-time''" _ "strip time_description" ?h1 ?h2]
      2 3 4 5
    by simp
qed

text \<open>The claim fails on the tool that prints nothing: discovery does not return.\<close>

theorem silent_tool_no_timeout: "create_app strict (Some mute) = None"
  using busy_wait_never [of "Popen mute"] by (simp add: create_app_def mute_buffer)

section \<open>Discovery\<close>

text \<open>
  C2. The claim: a first line that does not decode as a tool-description is a fatal
  ProtocolError and the subprocess is killed. The code looks at nothing but whether the
  line is JSON. As amended: a first line that is not valid JSON makes \<^verbatim>\<open>create_app\<close> raise
  \<^verbatim>\<open>RuntimeError("Invalid tool-description: ...")\<close> after killing the subprocess; a first
  line that is any JSON object is accepted whatever its \<^verbatim>\<open>type\<close>: the subprocess is killed
  and the endpoints are built from the value under \<^verbatim>\<open>tools\<close>, an empty list if there is none.
\<close>

theorem first_line_only_needs_json:
  assumes "busy_wait (Popen p) = Some h" and "stdout_buffer h = first_line # rest"
  shows "(json_loads first_line = Inl JSONDecodeError \<longrightarrow>
            create_app lib (Some p) = Some (Inl RuntimeError, Some (kill (h\<lparr>stdout_buffer := rest\<rparr>)))) \<and>
         (\<forall>kvs. json_loads first_line = Inr (JObject kvs) \<longrightarrow>
            create_app lib (Some p) =
              Some (case py_iter (case map_of kvs ''tools'' of None \<Rightarrow> JArray [] | Some v \<Rightarrow> v) of
                      Inl e \<Rightarrow> Inl e
                    | Inr ts \<Rightarrow> register_tools lib ts,
                    Some (kill (h\<lparr>stdout_buffer := rest\<rparr>))))"
  using assms
  by (auto simp: create_app_def pop0_def read_description_def py_get_def split: sum.splits option.splits)

theorem first_line_only_needs_json_witness:
  "create_app strict (Some (scripted [''starting up''] silent)) =
     Some (Inl RuntimeError,
           Some \<lparr>program = scripted [''starting up''] silent, state = True, stdin_pipe = [],
                 stdin_written = [], stdout_buffer = [], killed = True\<rparr>) \<and>
   create_app strict (Some (scripted [time_description] silent)) =
     Some (Inr time_app,
           Some \<lparr>program = scripted [time_description] silent, state = True, stdin_pipe = [],
                 stdin_written = [], stdout_buffer = [], killed = True\<rparr>)"
proof -
  have not_json: "json_loads (strip ''starting up'') = Inl JSONDecodeError"
    by code_simp
  show ?thesis
    using first_line_only_needs_json
            [where p = "scripted [''starting up''] silent" and first_line = "strip ''starting up''"
               and rest = "[]" and lib = strict, OF scripted_wait_description]
          first_line_only_needs_json
            [where p = "scripted [time_description] silent" and first_line = "strip time_description"
               and rest = "[]" and lib = strict, OF scripted_wait_description]
    by (simp add: not_json time_description_loads tool_description_def get_time_registered
        kill_def py_iter_def del: register_tools.simps)
qed

text \<open>
  The claim fails on a first line that is an error message: discovery succeeds, with no
  endpoint.
\<close>

theorem error_line_accepted_as_description:
  "map_option fst (create_app strict (Some (scripted [boom_line] silent))) = Some (Inr [])"
  by code_simp






lemma register_tool_name:
  "register_tool lib tool = Inr ep \<Longrightarrow>
   py_getitem tool ''name'' = Inr (JString (tool_default ep)) \<and> path ep = ''/'' @ tool_default ep"
  by (auto simp: register_tool_def split: sum.splits json.splits if_splits)











section \<open>Requests\<close>


lemma validate_fields_keys:
  "validate_fields lib fs kvs = Some request_data \<Longrightarrow> map fst request_data = fs"
  by (induction fs arbitrary: request_data) (auto split: option.splits)


lemma call_cycle_written:
  assumes "call_cycle spawn message = Some (Inr (result_line, h))"
  shows "stdin_written h = [json_dumps message @ [CHR 0x0A]]"
  using assms
  by (auto simp: call_cycle_def pop0_def stdin_write_def Popen_def
      split: option.splits sum.splits list.splits if_splits dest!: busy_wait_written)



lemma join_sublist: "x \<in> set xs \<Longrightarrow> sublist x (join sep xs)"
proof (induction xs)
  case Nil
  then show ?case by simp
next
  case (Cons y ys)
  show ?case
  proof (cases "x = y")
    case True
    then show ?thesis unfolding join_Cons by simp
  next
    case False
    with Cons have "sublist x (join sep ys)" and "ys \<noteq> []" by auto
    then have "sublist x ((y @ sep) @ join sep ys)"
      by (meson sublist_append_leftI sublist_order.order_trans)
    with \<open>ys \<noteq> []\<close> show ?thesis unfolding join_Cons by simp
  qed
qed

lemma py_repr_member:
  assumes "map_of kvs k = Some v"
  shows "sublist (py_repr v) (py_repr (JObject kvs))"
proof -
  have "(k, v) \<in> set kvs" using assms by (rule map_of_SomeD)
  then have "repr_str k @ '': '' @ py_repr v
      \<in> set (map (\<lambda>kv. repr_str (fst kv) @ '': '' @ py_repr (snd kv)) kvs)"
    by force
  then have "sublist (repr_str k @ '': '' @ py_repr v)
      (join '', '' (map (\<lambda>kv. repr_str (fst kv) @ '': '' @ py_repr (snd kv)) kvs))"
    by (rule join_sublist)
  moreover have "sublist (py_repr v) (repr_str k @ '': '' @ py_repr v)"
    using sublist_append_leftI [of "py_repr v" "repr_str k @ '': ''"] by simp
  ultimately have "sublist (py_repr v)
      (join '', '' (map (\<lambda>kv. repr_str (fst kv) @ '': '' @ py_repr (snd kv)) kvs))"
    by (meson sublist_order.order_trans)
  then have "sublist (py_repr v)
      (''{'' @ join '', '' (map (\<lambda>kv. repr_str (fst kv) @ '': '' @ py_repr (snd kv)) kvs) @ ''}'')"
    by (meson sublist_appendI sublist_order.order_trans)
  then show ?thesis by simp
qed

text \<open>
  C5. When the line the subprocess prints in answer to a call decodes to an error
  message with the error \<^verbatim>\<open>boom\<close>, as \<^verbatim>\<open>{"type": "error", "error": "boom"}\<close> does, the endpoint
  kills the subprocess and answers with status 500 and a detail that contains \<^verbatim>\<open>boom\<close>
  (the \<^verbatim>\<open>repr\<close> of the decoded message after \<^verbatim>\<open>Unexpected response: \<close>); it does not answer
  200.
\<close>

theorem error_message_gives_500:
  assumes "find (\<lambda>ep. path ep = url_path) app = Some ep"
    and "validate_body lib (request_model ep) body = Some request_data"
    and "call_cycle spawn
           (tool_call (case tool_param of None \<Rightarrow> tool_default ep | Some t \<Rightarrow> t) request_data) =
         Some (Inr (result_line, h))"
    and "json_loads result_line = Inr (JObject kvs)"
    and "map_of kvs ''type'' = Some (JString ''error'')"
    and "map_of kvs ''error'' = Some (JString ''boom'')"
  shows "\<exists>detail. post lib app spawn url_path tool_param body =
           Some (JSONResponse 500 (JObject [(''detail'', JString detail)]), Some (kill h)) \<and>
         sublist ''boom'' detail"
proof -
  let ?detail = "''Unexpected response: '' @ py_repr (JObject kvs)"
  have "sublist ''boom'' (py_repr (JString ''boom''))"
    by code_simp
  then have "sublist ''boom'' (py_repr (JObject kvs))"
    using py_repr_member [OF assms(6)] by (meson sublist_order.order_trans)
  then have sub: "sublist ''boom'' ?detail"
    by (meson sublist_append_leftI sublist_order.order_trans)
  have "read_result result_line h = (Inl (HTTPException 500 ?detail), kill h)"
    using assms(4,5) by (simp add: read_result_def py_get_def)
  then have "post lib app spawn url_path tool_param body =
           Some (JSONResponse 500 (JObject [(''detail'', JString ?detail)]), Some (kill h))"
    using assms(1-3) by (simp add: post_def tool_endpoint_def respond_def)
  with sub show ?thesis by blast
qed

theorem error_message_gives_500_witness:
  "\<exists>detail. post strict time_app (Some (scripted [time_description] booms)) ''/get-time'' None paris =
      Some (JSONResponse 500 (JObject [(''detail'', JString detail)]),
            Some \<lparr>program = scripted [time_description] booms, state = True, stdin_pipe = [],
                  stdin_written = [json_dumps (tool_call ''get-time'' [(''location'', ''Paris'')]) @ [CHR 0x0A]],
                  stdout_buffer = [], killed = True\<rparr>) \<and>
      sublist ''boom'' detail"
proof -
  have 1: "find (\<lambda>ep. path ep = ''/get-time'') time_app = Some (hd time_app)"
    by (simp add: time_app_def)
  have 2: "validate_body strict (request_model (hd time_app)) paris = Some [(''location'', ''Paris'')]"
    by (simp add: time_app_def validate_body_def strict_def paris_def)
  have 3: "call_cycle (Some (scripted [time_description] booms))
        (tool_call (case None of None \<Rightarrow> tool_default (hd time_app) | Some t \<Rightarrow> t) [(''location'', ''Paris'')]) =
      Some (Inr (strip boom_line, \<lparr>program = scripted [time_description] booms, state = True, stdin_pipe = [],
                  stdin_written = [json_dumps (tool_call ''get-time'' [(''location'', ''Paris'')]) @ [CHR 0x0A]],
                  stdout_buffer = [], killed = False\<rparr>))"
    by (simp add: time_app_def scripted_call_cycle [where r = "strip boom_line" and rs = "[]"] booms_def)
  have 4: "json_loads (strip boom_line) = Inr (JObject [(''type'', JString ''error''), (''error'', JString ''boom'')])"
    by code_simp
  show ?thesis
    using error_message_gives_500 [OF 1 2 3 4] by (simp add: kill_def)
qed















lemma endpoint_sends_own_name_by_default:
  assumes "register_tool lib tool = Inr ep"
    and "call_cycle spawn (tool_call (tool_default ep) request_data) = Some (Inr (result_line, h))"
  shows "py_getitem tool ''name'' = Inr (JString (tool_default ep)) \<and>
         stdin_written h = [json_dumps (tool_call (tool_default ep) request_data) @ [CHR 0x0A]]"
  using register_tool_name [OF assms(1)] call_cycle_written [OF assms(2)] by simp

text \<open>
  C9. The claim: the endpoint registered for a tool sends that tool's own name in every
  call. The default of the parameter \<^verbatim>\<open>tool\<close> is indeed the name of the tool of its own
  loop iteration (\<open>endpoint_sends_own_name_by_default\<close>). But \<^verbatim>\<open>tool\<close> is a parameter of
  the endpoint function with a default and no annotation, which FastAPI fills from the
  query string: a request to \<^verbatim>\<open>/get-forecast?tool=get-time\<close> makes the endpoint of
  \<^verbatim>\<open>get-forecast\<close> send a call that names \<^verbatim>\<open>get-time\<close>.
\<close>

theorem query_parameter_replaces_tool_name:
  "map_option fst (create_app strict (Some (scripted [two_tools_description] echo))) =
     Some (Inr two_tool_app) \<and>
   map_option (\<lambda>r. (fst r, map_option stdin_written (snd r)))
     (post strict two_tool_app (Some (scripted [two_tools_description] echo))
        ''/get-forecast'' (Some ''get-time'') paris) =
     Some (JSONResponse 200 (tool_call ''get-time'' [(''location'', ''Paris'')]),
           Some [json_dumps (tool_call ''get-time'' [(''location'', ''Paris'')]) @ [CHR 0x0A]])"
  by code_simp

end
